theory Spec2Isabelle
  imports Complex_Main
begin

section \<open>JSON values and \<open>JSON.stringify\<close>\<close>

text \<open>
  The envelope's payload and header values are JSON-like values: null, booleans, numbers,
  strings, ordered sequences and string-keyed mappings. Numbers are modelled as integers
  (the status code is one), written in decimal notation as \<open>JSON.stringify\<close> writes the
  integers a double holds exactly; fractional and non-finite doubles are outside the
  model. A string is a list of 8-bit characters. An object is the list of its own
  properties in enumeration order; a JavaScript object never has two properties of one
  name. \<open>JSON.stringify\<close> and \<open>JSON.parse\<close> belong to the platform, not to the
  repository; they are modelled here on these values.
\<close>

datatype json =
    JNull
  | JBool bool
  | JNumber int
  | JString string
  | JArray "json list"
  | JObject "(string \<times> json) list"

text \<open>Well-formed values: the property names of every object are pairwise distinct.\<close>

fun wf_json :: "json \<Rightarrow> bool"
  and wf_jsons :: "json list \<Rightarrow> bool"
  and wf_members :: "(string \<times> json) list \<Rightarrow> bool" where
  "wf_json (JArray xs) = wf_jsons xs"
| "wf_json (JObject kvs) = (distinct (map fst kvs) \<and> wf_members kvs)"
| "wf_json _ = True"
| "wf_jsons [] = True"
| "wf_jsons (x # xs) = (wf_json x \<and> wf_jsons xs)"
| "wf_members [] = True"
| "wf_members ((k, v) # kvs) = (wf_json v \<and> wf_members kvs)"

subsection \<open>The text \<open>JSON.stringify\<close> emits\<close>

definition hex_digit :: "nat \<Rightarrow> char" where
  "hex_digit n = (if n < 10 then char_of (48 + n) else char_of (87 + n))"

text \<open>
  QuoteJSONString: the quotation mark and the reverse solidus are escaped, the control
  characters below 0x20 are written with their short escape or as \<open>\u00XX\<close>, every other
  code unit stands for itself.
\<close>

definition quote_char :: "char \<Rightarrow> string" where
  "quote_char c =
     (if c = CHR 0x22 then [CHR 0x5C, CHR 0x22]
      else if c = CHR 0x5C then [CHR 0x5C, CHR 0x5C]
      else if c = CHR 0x08 then [CHR 0x5C, CHR ''b'']
      else if c = CHR 0x0C then [CHR 0x5C, CHR ''f'']
      else if c = CHR 0x0A then [CHR 0x5C, CHR ''n'']
      else if c = CHR 0x0D then [CHR 0x5C, CHR ''r'']
      else if c = CHR 0x09 then [CHR 0x5C, CHR ''t'']
      else if (of_char c :: nat) < 32
        then [CHR 0x5C, CHR ''u'', CHR ''0'', CHR ''0'',
              hex_digit ((of_char c :: nat) div 16), hex_digit ((of_char c :: nat) mod 16)]
      else [c])"

definition quote :: "string \<Rightarrow> string" where
  "quote s = CHR 0x22 # concat (map quote_char s) @ [CHR 0x22]"

fun show_nat :: "nat \<Rightarrow> string" where
  "show_nat n =
     (if n < 10 then [char_of (48 + n)] else show_nat (n div 10) @ [char_of (48 + n mod 10)])"

declare show_nat.simps [simp del]

definition show_int :: "int \<Rightarrow> string" where
  "show_int i = (if i < 0 then CHR ''-'' # show_nat (nat (- i)) else show_nat (nat i))"

fun stringify :: "json \<Rightarrow> string"
  and stringify_list :: "json list \<Rightarrow> string"
  and stringify_members :: "(string \<times> json) list \<Rightarrow> string" where
  "stringify JNull = ''null''"
| "stringify (JBool b) = (if b then ''true'' else ''false'')"
| "stringify (JNumber i) = show_int i"
| "stringify (JString s) = quote s"
| "stringify (JArray xs) = ''['' @ stringify_list xs @ '']''"
| "stringify (JObject kvs) = ''{'' @ stringify_members kvs @ ''}''"
| "stringify_list [] = []"
| "stringify_list [x] = stringify x"
| "stringify_list (x # y # ys) = stringify x @ '','' @ stringify_list (y # ys)"
| "stringify_members [] = []"
| "stringify_members [(k, v)] = quote k @ '':'' @ stringify v"
| "stringify_members ((k, v) # kv # kvs) =
     quote k @ '':'' @ stringify v @ '','' @ stringify_members (kv # kvs)"

section \<open>Envelope (\<open>Message.ts\<close>)\<close>

text \<open>
  \<open>headers?: Record<string, unknown>\<close> and a payload of type \<open>Data\<close> may be
  \<open>undefined\<close> (here \<open>None\<close>); \<open>route: string | null\<close>.
\<close>

record message =
  headers :: "(string \<times> json) list option"
  uuid :: string
  route :: "string option"
  payload :: "json option"
  status :: int

text \<open>
  Modelled from the spec: the enumeration \<open>StatusCodes\<close> is imported from the package
  index, which is not among the sources; the status "defaults to a success code", 200 in
  the documented example message.
\<close>

definition StatusCodes_OK :: int where
  "StatusCodes_OK = 200"

text \<open>
  The constructor: \<open>this.uuid = uuid ? uuid : crypto.randomUUID()\<close>. The random
  identifier is the argument \<open>fresh\<close>; the empty string is falsy.
\<close>

definition new_Message ::
  "string \<Rightarrow> json option \<Rightarrow> (string \<times> json) list option \<Rightarrow> int \<Rightarrow> string option \<Rightarrow> string \<Rightarrow> message"
  where
  "new_Message r p h st u fresh =
     \<lparr>headers = h,
      uuid = (case u of None \<Rightarrow> fresh | Some x \<Rightarrow> if x = [] then fresh else x),
      route = Some r, payload = p, status = st\<rparr>"

text \<open>
  \<open>serialize = () => JSON.stringify(this)\<close>. Of the object's own properties the
  function-valued \<open>serialize\<close> and every \<open>undefined\<close> one are left out; \<open>null\<close> is
  written. The order in which the five properties are written depends on how the class
  fields are compiled; no property below depends on it.
\<close>

definition message_json :: "message \<Rightarrow> json" where
  "message_json m =
     JObject
       ([(''uuid'', JString (uuid m)),
         (''route'', (case route m of None \<Rightarrow> JNull | Some r \<Rightarrow> JString r))]
        @ (case headers m of None \<Rightarrow> [] | Some h \<Rightarrow> [(''headers'', JObject h)])
        @ (case payload m of None \<Rightarrow> [] | Some p \<Rightarrow> [(''payload'', p)])
        @ [(''status'', JNumber (status m))])"

definition serialize :: "message \<Rightarrow> string" where
  "serialize m = stringify (message_json m)"

section \<open>Session (\<open>ObservableSocket.ts\<close>)\<close>

subsection \<open>The platform: transport, timers, callbacks, exceptions\<close>

text \<open>
  The ready state of a \<open>WebSocket\<close>. The transport's events (open, message, error,
  close) are inputs of the session; \<open>socket.close()\<close> only starts the closing handshake,
  the close event is delivered later, as an event of its own.
\<close>

datatype ready_state = CONNECTING | OPEN | CLOSING | CLOSED

text \<open>
  Callbacks of the caller are opaque: a callback is an identifier, and calling it is
  recorded in the trace of the step. A callback returns normally and does not call back
  into the session before it returns.
\<close>

type_synonym callback = nat

text \<open>The type \<open>Response\<close>: \<open>{message, success}\<close>, with \<open>None\<close> for \<open>message: null\<close>.\<close>

datatype response = Response (resp_message: "json option") (success: bool)

text \<open>
  What can be thrown: by \<open>JSON.parse\<close> (\<open>SyntaxError\<close>), by reading a property of
  \<open>null\<close> or calling a method of \<open>undefined\<close> (\<open>TypeError\<close>), by \<open>WebSocket.send\<close>
  on a connecting transport (\<open>InvalidStateError\<close>), and the error \<open>sendAndWait\<close> rejects
  with (\<open>NotConnected\<close>). The address of the session is taken to be a valid WebSocket
  URL, so that \<open>new WebSocket\<close> does not throw.
\<close>

datatype error = SyntaxError | TypeError | InvalidStateError | NotConnected

text \<open>
  The four timers of the session: the heartbeat interval, the timeout waiting for a PONG,
  the sweep interval and the reconnect timeout.
\<close>

datatype timer_kind = HeartbeatTick | HeartbeatTimeout | QueManagerTick | Reconnect

text \<open>
  What a task does to the outside, in the order in which it does it: the calls of the
  caller's callbacks, the calls on the transport, the reconnect delay handed to
  \<open>setTimeout\<close>, the console, and what leaves the task as a rejected promise or an
  uncaught exception.
\<close>

datatype event =
    PushCallback callback response
  | WaiterCallback callback response
  | ConnectionChange callback string bool
  | SocketSend string
  | SocketCloseCall
  | NewWebSocket string
  | SetReconnectTimeout real
  | ConsoleError string
  | ConsoleWarn string
  | PromiseRejected callback error
  | Uncaught error

record queItem =
  onMessage :: callback
  expire :: "int option"

text \<open>
  The fields of the class, the address \<open>connect\<close> closes over (\<open>socketUrl\<close>; its other
  argument, \<open>enableQueManager\<close>, is always the field of that name), and the timers the
  runtime holds for the session: \<open>setTimeout\<close> and \<open>setInterval\<close> return a handle never
  used before, \<open>clearTimeout\<close> and \<open>clearInterval\<close> drop the timer of that handle. A
  handle is never 0, so a test such as \<open>if (this.heartbeatInterval)\<close> asks whether the
  field is set. The numbers of the configuration are integers; the clock is in
  milliseconds.
\<close>

record session =
  name :: string
  socket :: "ready_state option"
  pendingRequests :: "(string \<times> queItem) list"
  onMessageReceived :: "callback option"
  onSocketConnectionChange :: "callback option"
  manuallyClosed :: bool
  reconnectAttempts :: nat
  heartbeatInterval :: "nat option"
  heartbeatTimeout :: "nat option"
  queManagerInterval :: "nat option"
  requestTimeout :: int
  queManagerTimeout :: int
  maxReconnectAttempts :: int
  heartbeatRate :: int
  heartbeatTimeoutDuration :: int
  enableQueManager :: bool
  globalHeaders :: "(string \<times> json) list"
  socketUrl :: string
  timers :: "(nat \<times> timer_kind) list"
  nextTimer :: nat

record socketConfig =
  cfg_queManager :: bool
  cfg_queRunTimeout :: int
  cfg_requestTimeout :: int
  cfg_maxReconnectAttempts :: int
  cfg_heartbeatRate :: int
  cfg_heartbeatTimeoutDuration :: int
  cfg_globalHeaders :: "(string \<times> json) list"

definition default_socketConfig :: socketConfig where
  "default_socketConfig =
     \<lparr>cfg_queManager = False, cfg_queRunTimeout = 5000, cfg_requestTimeout = 30000,
      cfg_maxReconnectAttempts = 5, cfg_heartbeatRate = 60000,
      cfg_heartbeatTimeoutDuration = 59000, cfg_globalHeaders = []\<rparr>"

definition MAX_TIMEOUT :: int where "MAX_TIMEOUT = 1800000"
definition MIN_QUE_TIMEOUT :: int where "MIN_QUE_TIMEOUT = 2000"

subsection \<open>\<open>Map\<close> and object spread\<close>

text \<open>
  A \<open>Map\<close> keeps its entries in insertion order; \<open>set\<close> on a key that is present
  replaces the value where the entry stands. Object spread assigns the own properties of
  each operand in turn, and spreading \<open>undefined\<close> assigns nothing.
\<close>

fun Map_set :: "'k \<Rightarrow> 'v \<Rightarrow> ('k \<times> 'v) list \<Rightarrow> ('k \<times> 'v) list" where
  "Map_set k v [] = [(k, v)]"
| "Map_set k v ((k', v') # xs) = (if k' = k then (k, v) # xs else (k', v') # Map_set k v xs)"

definition Map_get :: "('k \<times> 'v) list \<Rightarrow> 'k \<Rightarrow> 'v option" where
  "Map_get xs k = map_of xs k"

definition Map_delete :: "'k \<Rightarrow> ('k \<times> 'v) list \<Rightarrow> ('k \<times> 'v) list" where
  "Map_delete k xs = filter (\<lambda>e. fst e \<noteq> k) xs"

definition spread ::
  "(string \<times> json) list \<Rightarrow> (string \<times> json) list option \<Rightarrow> (string \<times> json) list" where
  "spread g h = foldl (\<lambda>acc e. Map_set (fst e) (snd e) acc) g (case h of None \<Rightarrow> [] | Some kvs \<Rightarrow> kvs)"

subsection \<open>Timers\<close>

definition clearTimer :: "nat \<Rightarrow> session \<Rightarrow> session" where
  "clearTimer t s = s\<lparr>timers := filter (\<lambda>e. fst e \<noteq> t) (timers s)\<rparr>"

definition setTimer :: "timer_kind \<Rightarrow> session \<Rightarrow> nat \<times> session" where
  "setTimer k s =
     (nextTimer s, s\<lparr>timers := timers s @ [(nextTimer s, k)], nextTimer := Suc (nextTimer s)\<rparr>)"

definition startQueManager :: "session \<Rightarrow> session" where
  "startQueManager s =
     (let s1 = (case queManagerInterval s of Some t \<Rightarrow> clearTimer t s | None \<Rightarrow> s);
          (t, s2) = setTimer QueManagerTick s1
      in s2\<lparr>queManagerInterval := Some t\<rparr>)"

definition stopQueManager :: "session \<Rightarrow> session" where
  "stopQueManager s =
     (case queManagerInterval s of
        Some t \<Rightarrow> (clearTimer t s)\<lparr>queManagerInterval := None\<rparr>
      | None \<Rightarrow> s)"

definition startHeartbeat :: "session \<Rightarrow> session" where
  "startHeartbeat s =
     (let s1 = (case heartbeatInterval s of Some t \<Rightarrow> clearTimer t s | None \<Rightarrow> s);
          (t, s2) = setTimer HeartbeatTick s1
      in s2\<lparr>heartbeatInterval := Some t\<rparr>)"

definition stopHeartbeat :: "session \<Rightarrow> session" where
  "stopHeartbeat s =
     (let s1 = (case heartbeatInterval s of
                  Some t \<Rightarrow> (clearTimer t s)\<lparr>heartbeatInterval := None\<rparr>
                | None \<Rightarrow> s)
      in case heartbeatTimeout s1 of
           Some t \<Rightarrow> (clearTimer t s1)\<lparr>heartbeatTimeout := None\<rparr>
         | None \<Rightarrow> s1)"

subsection \<open>Sending\<close>

text \<open>
  \<open>WebSocket.send\<close> throws while the transport is still connecting and discards the
  data once it is closing or closed; \<open>WebSocket.close\<close> does nothing on a transport
  that is closing or closed.
\<close>

definition ws_send :: "ready_state option \<Rightarrow> string \<Rightarrow> error + event list" where
  "ws_send rs d =
     (case rs of
        None \<Rightarrow> Inl TypeError
      | Some CONNECTING \<Rightarrow> Inl InvalidStateError
      | Some OPEN \<Rightarrow> Inr [SocketSend d]
      | Some _ \<Rightarrow> Inr [])"

definition ws_close :: "session \<Rightarrow> session \<times> event list" where
  "ws_close s =
     (case socket s of
        Some CONNECTING \<Rightarrow> (s\<lparr>socket := Some CLOSING\<rparr>, [SocketCloseCall])
      | Some OPEN \<Rightarrow> (s\<lparr>socket := Some CLOSING\<rparr>, [SocketCloseCall])
      | Some _ \<Rightarrow> (s, [SocketCloseCall])
      | None \<Rightarrow> (s, []))"

text \<open>
  A send returns the caller's envelope as the call leaves it, next to what it did.
\<close>

definition sendMessage :: "session \<Rightarrow> message \<Rightarrow> error + (message \<times> event list)" where
  "sendMessage s m =
     (if socket s = Some OPEN then
        (let m' = m\<lparr>headers := Some (spread (globalHeaders s) (headers m))\<rparr>
         in case ws_send (socket s) (serialize m') of
              Inl e \<Rightarrow> Inl e
            | Inr evs \<Rightarrow> Inr (m', evs))
      else Inr (m, [ConsoleError ''Cannot send message: WebSocket is not connected.'']))"

definition onResponse ::
  "session \<Rightarrow> message \<Rightarrow> callback \<Rightarrow> int \<Rightarrow> error + (session \<times> message \<times> event list)" where
  "onResponse s request onReceivedAction now =
     (let request' = request\<lparr>headers := Some (spread (globalHeaders s) (headers request))\<rparr>;
          s' = s\<lparr>pendingRequests :=
                   Map_set (uuid request')
                     \<lparr>onMessage = onReceivedAction, expire = Some (now + requestTimeout s)\<rparr>
                     (pendingRequests s)\<rparr>
      in case sendMessage s' request' of
           Inl e \<Rightarrow> Inl e
         | Inr (m, evs) \<Rightarrow> Inr (s', m, evs))"

text \<open>
  \<open>sendAndWait\<close> returns a promise; \<open>Inl\<close> is its rejection, and the waiter it
  registers is the promise's \<open>resolve\<close>.
\<close>

definition sendAndWait ::
  "session \<Rightarrow> message \<Rightarrow> callback \<Rightarrow> int \<Rightarrow> error + (session \<times> message \<times> event list)" where
  "sendAndWait s m resolve now =
     (if socket s \<noteq> Some OPEN then Inl NotConnected else onResponse s m resolve now)"

definition close :: "session \<Rightarrow> session \<times> event list" where
  "close s = ws_close (stopHeartbeat (stopQueManager (s\<lparr>manuallyClosed := True\<rparr>)))"

subsection \<open>The handlers \<open>connect\<close> installs\<close>

definition connect :: "session \<Rightarrow> session \<times> event list" where
  "connect s = (s\<lparr>socket := Some CONNECTING, manuallyClosed := False\<rparr>, [NewWebSocket (socketUrl s)])"

definition notifyConnectionChange :: "session \<Rightarrow> bool \<Rightarrow> event list" where
  "notifyConnectionChange s b =
     (case onSocketConnectionChange s of None \<Rightarrow> [] | Some cb \<Rightarrow> [ConnectionChange cb (name s) b])"

definition socket_onopen :: "session \<Rightarrow> session \<times> event list" where
  "socket_onopen s =
     (let s1 = startHeartbeat (s\<lparr>reconnectAttempts := 0\<rparr>);
          s2 = (if enableQueManager s1 then startQueManager s1 else s1)
      in (s2, notifyConnectionChange s True))"

text \<open>
  Reading a property of \<open>null\<close> throws; of the other values only an object has the
  properties \<open>route\<close> and \<open>uuid\<close>.
\<close>

definition get_prop :: "json \<Rightarrow> string \<Rightarrow> error + json option" where
  "get_prop v k =
     (case v of JNull \<Rightarrow> Inl TypeError | JObject kvs \<Rightarrow> Inr (map_of kvs k) | _ \<Rightarrow> Inr None)"

text \<open>
  The body of the \<open>try\<close> block of \<open>socket.onmessage\<close>. Its argument is what
  \<open>JSON.parse(event.data)\<close> returns, \<open>None\<close> when it throws. The keys of
  \<open>pendingRequests\<close> are strings, so only a string \<open>uuid\<close> finds an entry.
\<close>

definition onmessage_try :: "session \<Rightarrow> json option \<Rightarrow> error + (session \<times> event list)" where
  "onmessage_try s parsed =
     (case parsed of
        None \<Rightarrow> Inl SyntaxError
      | Some msg \<Rightarrow>
          (case get_prop msg ''route'' of
             Inl e \<Rightarrow> Inl e
           | Inr r \<Rightarrow>
               if r = Some (JString ''PONG'') then
                 Inr ((case heartbeatTimeout s of Some t \<Rightarrow> clearTimer t s | None \<Rightarrow> s), [])
               else
                 (let push = (case onMessageReceived s of
                                None \<Rightarrow> []
                              | Some cb \<Rightarrow> [PushCallback cb (Response (Some msg) True)])
                  in case get_prop msg ''uuid'' of
                       Inl e \<Rightarrow> Inl e
                     | Inr (Some (JString u)) \<Rightarrow>
                         (case Map_get (pendingRequests s) u of
                            Some pending \<Rightarrow>
                              Inr (s\<lparr>pendingRequests := Map_delete u (pendingRequests s)\<rparr>,
                                   push @ [WaiterCallback (onMessage pending) (Response (Some msg) True)])
                          | None \<Rightarrow> Inr (s, push))
                     | Inr _ \<Rightarrow> Inr (s, push))))"

definition socket_onmessage :: "session \<Rightarrow> json option \<Rightarrow> error + (session \<times> event list)" where
  "socket_onmessage s parsed =
     (case onmessage_try s parsed of
        Inl e \<Rightarrow> Inr (s, [ConsoleError ''Invalid WebSocket message:''])
      | Inr r \<Rightarrow> Inr r)"

definition socket_onerror :: "session \<Rightarrow> session \<times> event list" where
  "socket_onerror s = (s, [ConsoleError ''WebSocket error:''])"

definition failPending :: "(string \<times> queItem) list \<Rightarrow> event list" where
  "failPending ps = map (\<lambda>e. WaiterCallback (onMessage (snd e)) (Response None False)) ps"

definition reconnect_backoff :: "nat \<Rightarrow> nat" where
  "reconnect_backoff attempts = min 15000 (1000 * 2 ^ attempts)"

definition reconnect_delay :: "nat \<Rightarrow> real \<Rightarrow> real" where
  "reconnect_delay attempts jitter = real (reconnect_backoff attempts) + jitter"

text \<open>
  \<open>socket.onclose\<close>, with the close code of the event and the value of
  \<open>Math.random() * 300\<close> drawn in this call.
\<close>

definition socket_onclose :: "session \<Rightarrow> int \<Rightarrow> real \<Rightarrow> session \<times> event list" where
  "socket_onclose s code jitter =
     (let s1 = stopHeartbeat (stopQueManager s);
          evs = failPending (pendingRequests s1) @ notifyConnectionChange s1 False;
          s2 = s1\<lparr>pendingRequests := []\<rparr>
      in if code \<in> {1008, 1011} then
           (s2, evs @ [ConsoleError ''Server closed connection due to authentication or policy violation.''])
         else if manuallyClosed s2 then (s2, evs)
         else if int (reconnectAttempts s2) < maxReconnectAttempts s2 then
           (let (t, s3) = setTimer Reconnect s2
            in (s3, evs @ [SetReconnectTimeout (reconnect_delay (reconnectAttempts s2) jitter)]))
         else (s2, evs @ [ConsoleError ''Max reconnect attempts reached.'']))"

text \<open>The callback of the reconnect timer.\<close>

definition reconnectFire :: "session \<Rightarrow> session \<times> event list" where
  "reconnectFire s = connect (s\<lparr>reconnectAttempts := Suc (reconnectAttempts s)\<rparr>)"

text \<open>The callback of the sweep interval, with the value of \<open>Date.now()\<close>.\<close>

definition expired :: "int \<Rightarrow> queItem \<Rightarrow> bool" where
  "expired now q = (case expire q of None \<Rightarrow> False | Some e \<Rightarrow> e \<noteq> 0 \<and> e < now)"

definition queManagerFire :: "session \<Rightarrow> int \<Rightarrow> session \<times> event list" where
  "queManagerFire s now =
     (s\<lparr>pendingRequests := filter (\<lambda>e. \<not> expired now (snd e)) (pendingRequests s)\<rparr>,
      failPending (filter (\<lambda>e. expired now (snd e)) (pendingRequests s)))"

text \<open>
  The callback of the heartbeat interval; \<open>fresh\<close> is the identifier
  \<open>crypto.randomUUID()\<close> gives the PING envelope.
\<close>

definition heartbeatFire :: "session \<Rightarrow> string \<Rightarrow> error + (session \<times> event list)" where
  "heartbeatFire s fresh =
     (if socket s = Some OPEN then
        (case sendMessage s (new_Message ''PING'' (Some (JObject [])) None StatusCodes_OK None fresh) of
           Inl e \<Rightarrow> Inl e
         | Inr (m, evs) \<Rightarrow>
             (let s1 = (case heartbeatTimeout s of Some t \<Rightarrow> clearTimer t s | None \<Rightarrow> s);
                  (t, s2) = setTimer HeartbeatTimeout s1
              in Inr (s2\<lparr>heartbeatTimeout := Some t\<rparr>, evs)))
      else Inr (s, []))"

text \<open>The callback of the heartbeat-timeout timer.\<close>

definition heartbeatTimeoutFire :: "session \<Rightarrow> session \<times> event list" where
  "heartbeatTimeoutFire s =
     (let (s', evs) = ws_close s in (s', ConsoleWarn ''No PONG received! Closing WebSocket...'' # evs))"

subsection \<open>The constructor\<close>

definition clamp_requestTimeout :: "int \<Rightarrow> int" where
  "clamp_requestTimeout t =
     (if t > MAX_TIMEOUT then MAX_TIMEOUT else if t < MIN_QUE_TIMEOUT then MIN_QUE_TIMEOUT else t)"

definition new_ObservableSocket ::
  "string \<Rightarrow> string \<Rightarrow> callback option \<Rightarrow> callback option \<Rightarrow> socketConfig \<Rightarrow> session \<times> event list"
  where
  "new_ObservableSocket nm url onSocketConnectChanged onMessageRcv config =
     connect
       \<lparr>name = nm, socket = None, pendingRequests = [],
        onMessageReceived = onMessageRcv, onSocketConnectionChange = onSocketConnectChanged,
        manuallyClosed = False, reconnectAttempts = 0,
        heartbeatInterval = None, heartbeatTimeout = None, queManagerInterval = None,
        requestTimeout = clamp_requestTimeout (cfg_requestTimeout config),
        queManagerTimeout = cfg_queRunTimeout config,
        maxReconnectAttempts = cfg_maxReconnectAttempts config,
        heartbeatRate = cfg_heartbeatRate config,
        heartbeatTimeoutDuration = cfg_heartbeatTimeoutDuration config,
        enableQueManager = cfg_queManager config,
        globalHeaders = cfg_globalHeaders config,
        socketUrl = url, timers = [], nextTimer = 1\<rparr>"

subsection \<open>Executions\<close>

text \<open>
  Everything runs on one event loop, one task after the other. A task is an event of the
  transport, a timer that fires, or a call of a public operation. The transport delivers
  its open event only while connecting, a message only while open, and its close event
  once, when it becomes closed; a timer fires only while the runtime holds it, and a
  timeout is dropped when it fires. A task that cannot happen in the state leaves it as
  it is.
\<close>

datatype input =
    SocketOpen
  | SocketMessage "json option"
  | SocketError
  | SocketClose int real
  | TimerFire nat int string
  | SendMessage message
  | OnResponse message callback int
  | SendAndWait message callback int
  | Close

definition uncaught :: "session \<Rightarrow> error + (session \<times> event list) \<Rightarrow> session \<times> event list" where
  "uncaught s r = (case r of Inl e \<Rightarrow> (s, [Uncaught e]) | Inr x \<Rightarrow> x)"

definition timerFire :: "session \<Rightarrow> nat \<Rightarrow> int \<Rightarrow> string \<Rightarrow> session \<times> event list" where
  "timerFire s t now fresh =
     (case map_of (timers s) t of
        None \<Rightarrow> (s, [])
      | Some HeartbeatTick \<Rightarrow> uncaught s (heartbeatFire s fresh)
      | Some QueManagerTick \<Rightarrow> queManagerFire s now
      | Some HeartbeatTimeout \<Rightarrow> heartbeatTimeoutFire (clearTimer t s)
      | Some Reconnect \<Rightarrow> reconnectFire (clearTimer t s))"

fun step :: "session \<Rightarrow> input \<Rightarrow> session \<times> event list" where
  "step s SocketOpen =
     (if socket s = Some CONNECTING then socket_onopen (s\<lparr>socket := Some OPEN\<rparr>) else (s, []))"
| "step s (SocketMessage parsed) =
     (if socket s = Some OPEN then uncaught s (socket_onmessage s parsed) else (s, []))"
| "step s SocketError =
     (if socket s \<in> {None, Some CLOSED} then (s, []) else socket_onerror s)"
| "step s (SocketClose code jitter) =
     (if socket s \<in> {None, Some CLOSED} then (s, [])
      else socket_onclose (s\<lparr>socket := Some CLOSED\<rparr>) code jitter)"
| "step s (TimerFire t now fresh) = timerFire s t now fresh"
| "step s (SendMessage m) =
     (case sendMessage s m of Inl e \<Rightarrow> (s, [Uncaught e]) | Inr (m', evs) \<Rightarrow> (s, evs))"
| "step s (OnResponse m cb now) =
     (case onResponse s m cb now of Inl e \<Rightarrow> (s, [Uncaught e]) | Inr (s', m', evs) \<Rightarrow> (s', evs))"
| "step s (SendAndWait m cb now) =
     (case sendAndWait s m cb now of
        Inl e \<Rightarrow> (s, [PromiseRejected cb e])
      | Inr (s', m', evs) \<Rightarrow> (s', evs))"
| "step s Close = close s"

fun run :: "session \<Rightarrow> input list \<Rightarrow> session \<times> event list" where
  "run s [] = (s, [])"
| "run s (i # is) =
     (let (s1, evs1) = step s i; (s2, evs2) = run s1 is in (s2, evs1 @ evs2))"

section \<open>\<open>JSON.parse\<close>\<close>

text \<open>
  The part of \<open>JSON.parse\<close> that reads what \<open>JSON.stringify\<close> writes: JSON text
  without insignificant white space and with integer numbers. It refuses a fraction, an
  exponent and \<open>-0\<close>, for which the model has no value, and an escape \<open>\u\<close> beyond
  the 8-bit characters of the model; a leading zero and a raw control character are not
  JSON. Of two members of one name the later one gives the value. The fuel of the
  recursive descent is the length of the text; the round trip below shows that it is
  enough for every text \<open>stringify\<close> writes.
\<close>

definition strip_prefix :: "string \<Rightarrow> string \<Rightarrow> string option" where
  "strip_prefix p cs = (if take (length p) cs = p then Some (drop (length p) cs) else None)"

definition is_digit :: "char \<Rightarrow> bool" where
  "is_digit c = (48 \<le> (of_char c :: nat) \<and> (of_char c :: nat) \<le> 57)"

definition hex_val :: "char \<Rightarrow> nat option" where
  "hex_val c =
     (let n = (of_char c :: nat)
      in if 48 \<le> n \<and> n \<le> 57 then Some (n - 48)
         else if 97 \<le> n \<and> n \<le> 102 then Some (n - 87)
         else if 65 \<le> n \<and> n \<le> 70 then Some (n - 55)
         else None)"

definition unescape :: "char \<Rightarrow> char option" where
  "unescape e =
     (if e = CHR 0x22 then Some (CHR 0x22)
      else if e = CHR 0x5C then Some (CHR 0x5C)
      else if e = CHR ''/'' then Some (CHR ''/'')
      else if e = CHR ''b'' then Some (CHR 0x08)
      else if e = CHR ''f'' then Some (CHR 0x0C)
      else if e = CHR ''n'' then Some (CHR 0x0A)
      else if e = CHR ''r'' then Some (CHR 0x0D)
      else if e = CHR ''t'' then Some (CHR 0x09)
      else None)"

definition unescape_u :: "char \<Rightarrow> char \<Rightarrow> char \<Rightarrow> char \<Rightarrow> char option" where
  "unescape_u h1 h2 h3 h4 =
     (case (hex_val h1, hex_val h2, hex_val h3, hex_val h4) of
        (Some a, Some b, Some c, Some d) \<Rightarrow>
          if a = 0 \<and> b = 0 then Some (char_of (16 * c + d)) else None
      | _ \<Rightarrow> None)"

definition cons_result :: "char \<Rightarrow> (string \<times> string) option \<Rightarrow> (string \<times> string) option" where
  "cons_result c r = (case r of None \<Rightarrow> None | Some (s, rest) \<Rightarrow> Some (c # s, rest))"

fun parse_string :: "string \<Rightarrow> (string \<times> string) option" where
  "parse_string [] = None"
| "parse_string (c # r) =
     (if c = CHR 0x22 then Some ([], r)
      else if c = CHR 0x5C then
        (case r of
           [] \<Rightarrow> None
         | e # r2 \<Rightarrow>
             if e = CHR ''u'' then
               (case r2 of
                  h1 # h2 # h3 # h4 # r3 \<Rightarrow>
                    (case unescape_u h1 h2 h3 h4 of
                       Some ch \<Rightarrow> cons_result ch (parse_string r3)
                     | None \<Rightarrow> None)
                | _ \<Rightarrow> None)
             else
               (case unescape e of
                  Some ch \<Rightarrow> cons_result ch (parse_string r2)
                | None \<Rightarrow> None))
      else if (of_char c :: nat) < 32 then None
      else cons_result c (parse_string r))"

definition digits_val :: "string \<Rightarrow> nat" where
  "digits_val ds = foldl (\<lambda>a c. 10 * a + ((of_char c :: nat) - 48)) 0 ds"

definition parse_nat :: "string \<Rightarrow> (nat \<times> string) option" where
  "parse_nat cs =
     (let ds = takeWhile is_digit cs; r = dropWhile is_digit cs
      in if ds = [] then None
         else if 1 < length ds \<and> hd ds = CHR ''0'' then None
         else if r \<noteq> [] \<and> hd r \<in> {CHR ''.'', CHR ''e'', CHR ''E''} then None
         else Some (digits_val ds, r))"

definition parse_number :: "string \<Rightarrow> (json \<times> string) option" where
  "parse_number cs =
     (case cs of
        [] \<Rightarrow> None
      | c # r \<Rightarrow>
          if c = CHR ''-'' then
            (case parse_nat r of
               Some (n, r') \<Rightarrow> if n = 0 then None else Some (JNumber (- int n), r')
             | None \<Rightarrow> None)
          else (case parse_nat cs of Some (n, r') \<Rightarrow> Some (JNumber (int n), r') | None \<Rightarrow> None))"

definition object_of :: "(string \<times> json) list \<Rightarrow> json" where
  "object_of kvs = JObject (foldl (\<lambda>acc e. Map_set (fst e) (snd e) acc) [] kvs)"

fun parse_value :: "nat \<Rightarrow> string \<Rightarrow> (json \<times> string) option"
  and parse_elements :: "nat \<Rightarrow> string \<Rightarrow> (json list \<times> string) option"
  and parse_members :: "nat \<Rightarrow> string \<Rightarrow> ((string \<times> json) list \<times> string) option" where
  "parse_value 0 cs = None"
| "parse_value (Suc n) cs =
     (case cs of
        [] \<Rightarrow> None
      | c # r \<Rightarrow>
          if c = CHR ''n'' then map_option (Pair JNull) (strip_prefix ''ull'' r)
          else if c = CHR ''t'' then map_option (Pair (JBool True)) (strip_prefix ''rue'' r)
          else if c = CHR ''f'' then map_option (Pair (JBool False)) (strip_prefix ''alse'' r)
          else if c = CHR 0x22 then
            (case parse_string r of Some (s, r') \<Rightarrow> Some (JString s, r') | None \<Rightarrow> None)
          else if c = CHR ''['' then
            (case r of
               [] \<Rightarrow> None
             | d # r' \<Rightarrow>
                 if d = CHR '']'' then Some (JArray [], r')
                 else (case parse_elements n r of
                         Some (xs, r'') \<Rightarrow> Some (JArray xs, r'')
                       | None \<Rightarrow> None))
          else if c = CHR ''{'' then
            (case r of
               [] \<Rightarrow> None
             | d # r' \<Rightarrow>
                 if d = CHR ''}'' then Some (JObject [], r')
                 else (case parse_members n r of
                         Some (kvs, r'') \<Rightarrow> Some (object_of kvs, r'')
                       | None \<Rightarrow> None))
          else parse_number cs)"
| "parse_elements 0 cs = None"
| "parse_elements (Suc n) cs =
     (case parse_value n cs of
        None \<Rightarrow> None
      | Some (x, r) \<Rightarrow>
          (case r of
             [] \<Rightarrow> None
           | d # r' \<Rightarrow>
               if d = CHR '']'' then Some ([x], r')
               else if d = CHR '','' then
                 (case parse_elements n r' of
                    Some (xs, r'') \<Rightarrow> Some (x # xs, r'')
                  | None \<Rightarrow> None)
               else None))"
| "parse_members 0 cs = None"
| "parse_members (Suc n) cs =
     (case cs of
        [] \<Rightarrow> None
      | q # r0 \<Rightarrow>
          if q \<noteq> CHR 0x22 then None
          else
            (case parse_string r0 of
               None \<Rightarrow> None
             | Some (k, r1) \<Rightarrow>
                 (case r1 of
                    [] \<Rightarrow> None
                  | col # r2 \<Rightarrow>
                      if col \<noteq> CHR '':'' then None
                      else
                        (case parse_value n r2 of
                           None \<Rightarrow> None
                         | Some (v, r) \<Rightarrow>
                             (case r of
                                [] \<Rightarrow> None
                              | d # r' \<Rightarrow>
                                  if d = CHR ''}'' then Some ([(k, v)], r')
                                  else if d = CHR '','' then
                                    (case parse_members n r' of
                                       Some (kvs, r'') \<Rightarrow> Some ((k, v) # kvs, r'')
                                     | None \<Rightarrow> None)
                                  else None)))))"

definition JSON_parse :: "string \<Rightarrow> json option" where
  "JSON_parse s = (case parse_value (Suc (length s)) s of Some (v, []) \<Rightarrow> Some v | _ \<Rightarrow> None)"

text \<open>A value in a text is followed by a comma, a closing bracket or brace, or nothing.\<close>

definition delim :: "string \<Rightarrow> bool" where
  "delim rest = (case rest of [] \<Rightarrow> True | c # _ \<Rightarrow> c = CHR '','' \<or> c = CHR '']'' \<or> c = CHR ''}'')"

section \<open>Notions the properties are stated with\<close>

subsection \<open>Envelopes\<close>

text \<open>The envelope's own headers, none when the field is \<open>undefined\<close>.\<close>

definition own_headers :: "message \<Rightarrow> (string \<times> json) list" where
  "own_headers m = (case headers m of None \<Rightarrow> [] | Some h \<Rightarrow> h)"

text \<open>
  An envelope of JSON-like values: its headers form an object, its payload is a value,
  and no object in them has two properties of one name.
\<close>

definition wf_message :: "message \<Rightarrow> bool" where
  "wf_message m =
     ((case headers m of None \<Rightarrow> True | Some h \<Rightarrow> wf_json (JObject h))
      \<and> (case payload m of None \<Rightarrow> True | Some p \<Rightarrow> wf_json p))"

subsection \<open>Timers the session owns\<close>

text \<open>
  The waiter calls of a trace; a timer of the runtime is owned when the field of its kind
  holds its handle (a reconnect timer is held by no field); the heartbeat and the sweep
  are stopped when their fields are empty and the runtime holds no timer of their kinds.
\<close>

fun is_waiter_call :: "event \<Rightarrow> bool" where
  "is_waiter_call (WaiterCallback cb r) = True"
| "is_waiter_call _ = False"

fun owned :: "session \<Rightarrow> nat \<times> timer_kind \<Rightarrow> bool" where
  "owned s (t, HeartbeatTick) = (heartbeatInterval s = Some t)"
| "owned s (t, HeartbeatTimeout) = (heartbeatTimeout s = Some t)"
| "owned s (t, QueManagerTick) = (queManagerInterval s = Some t)"
| "owned s (t, Reconnect) = True"

definition timers_owned :: "session \<Rightarrow> bool" where
  "timers_owned s = list_all (owned s) (timers s)"

definition timers_stopped :: "session \<Rightarrow> bool" where
  "timers_stopped s =
     (heartbeatInterval s = None \<and> heartbeatTimeout s = None \<and> queManagerInterval s = None
      \<and> list_all (\<lambda>e. snd e = Reconnect) (timers s))"

subsection \<open>Resolution of a correlated send\<close>

text \<open>
  The calls of one handler in a trace, the inputs that register a handler or use a uuid,
  and the three tasks that resolve the waiter of a uuid: a frame that correlates with it
  (any parsed frame but \<open>null\<close> and PONG, by its string \<open>uuid\<close>), the close event of
  a transport that is not yet closed, and a tick of the sweep timer at which the entry
  has expired. \<open>first_resolution\<close> is the response of the first resolving task of an
  execution, if there is one.
\<close>

fun is_call :: "callback \<Rightarrow> event \<Rightarrow> bool" where
  "is_call h (WaiterCallback cb r) = (cb = h)"
| "is_call h _ = False"

fun registers :: "callback \<Rightarrow> input \<Rightarrow> bool" where
  "registers h (OnResponse m cb now) = (cb = h)"
| "registers h (SendAndWait m cb now) = (cb = h)"
| "registers h _ = False"

fun sends_uuid :: "string \<Rightarrow> input \<Rightarrow> bool" where
  "sends_uuid u (OnResponse m cb now) = (uuid m = u)"
| "sends_uuid u (SendAndWait m cb now) = (uuid m = u)"
| "sends_uuid u _ = False"

definition correlates :: "json \<Rightarrow> string option" where
  "correlates msg =
     (if msg = JNull \<or> get_prop msg ''route'' = Inr (Some (JString ''PONG'')) then None
      else case get_prop msg ''uuid'' of Inr (Some (JString u)) \<Rightarrow> Some u | _ \<Rightarrow> None)"

fun resolves :: "session \<Rightarrow> string \<Rightarrow> input \<Rightarrow> response option" where
  "resolves s u (SocketMessage p) =
     (case p of
        Some msg \<Rightarrow> if socket s = Some OPEN \<and> correlates msg = Some u then Some (Response (Some msg) True) else None
      | None \<Rightarrow> None)"
| "resolves s u (SocketClose code jitter) =
     (if socket s \<in> {None, Some CLOSED} then None else Some (Response None False))"
| "resolves s u (TimerFire t now fresh) =
     (if map_of (timers s) t = Some QueManagerTick
         \<and> (case Map_get (pendingRequests s) u of Some q \<Rightarrow> expired now q | None \<Rightarrow> False)
      then Some (Response None False) else None)"
| "resolves s u _ = None"

fun first_resolution :: "session \<Rightarrow> string \<Rightarrow> input list \<Rightarrow> response option" where
  "first_resolution s u [] = None"
| "first_resolution s u (i # is) =
     (case resolves s u i of
        Some r \<Rightarrow> Some r
      | None \<Rightarrow> first_resolution (fst (step s i)) u is)"

text \<open>
  What a task does to the pending-request table and which waiters it calls, read off the
  handlers (\<open>step_table\<close> below proves it is the projection of \<open>step\<close>).
\<close>

fun table_step :: "session \<Rightarrow> input \<Rightarrow> (string \<times> queItem) list \<times> event list" where
  "table_step s (SocketMessage p) =
     (case p of
        Some msg \<Rightarrow>
          (if socket s = Some OPEN then
             (case correlates msg of
                Some u \<Rightarrow>
                  (case Map_get (pendingRequests s) u of
                     Some q \<Rightarrow> (Map_delete u (pendingRequests s),
                                [WaiterCallback (onMessage q) (Response (Some msg) True)])
                   | None \<Rightarrow> (pendingRequests s, []))
              | None \<Rightarrow> (pendingRequests s, []))
           else (pendingRequests s, []))
      | None \<Rightarrow> (pendingRequests s, []))"
| "table_step s (SocketClose code jitter) =
     (if socket s \<in> {None, Some CLOSED} then (pendingRequests s, [])
      else ([], failPending (pendingRequests s)))"
| "table_step s (TimerFire t now fresh) =
     (if map_of (timers s) t = Some QueManagerTick
      then (filter (\<lambda>e. \<not> expired now (snd e)) (pendingRequests s),
            failPending (filter (\<lambda>e. expired now (snd e)) (pendingRequests s)))
      else (pendingRequests s, []))"
| "table_step s (OnResponse m cb now) =
     (Map_set (uuid m) \<lparr>onMessage = cb, expire = Some (now + requestTimeout s)\<rparr> (pendingRequests s), [])"
| "table_step s (SendAndWait m cb now) =
     (if socket s = Some OPEN
      then (Map_set (uuid m) \<lparr>onMessage = cb, expire = Some (now + requestTimeout s)\<rparr> (pendingRequests s), [])
      else (pendingRequests s, []))"
| "table_step s _ = (pendingRequests s, [])"

text \<open>
  A handler waits under one uuid only, or under none; the keys of the table are distinct.
\<close>

definition only_at :: "(string \<times> queItem) list \<Rightarrow> string \<Rightarrow> callback \<Rightarrow> queItem \<Rightarrow> bool" where
  "only_at ps u h q =
     (distinct (map fst ps) \<and> map_of ps u = Some q \<and> onMessage q = h
      \<and> (\<forall>e\<in>set ps. onMessage (snd e) = h \<longrightarrow> fst e = u))"

definition absent :: "(string \<times> queItem) list \<Rightarrow> callback \<Rightarrow> bool" where
  "absent ps h = (distinct (map fst ps) \<and> (\<forall>e\<in>set ps. onMessage (snd e) \<noteq> h))"

section \<open>Sessions and envelopes to evaluate on\<close>

text \<open>
  A new session with the default configuration and one with the sweep enabled; sessions
  that have opened, that wait for one response, that the peer has closed for good and
  that have used up their reconnect attempts; an envelope, a frame that answers it, and
  an envelope with a nested payload.
\<close>

definition ex_new :: session where
  "ex_new = fst (new_ObservableSocket ''app'' ''wss://example.com/ws/app/'' (Some 1) (Some 2) default_socketConfig)"

definition ex_sweep :: session where
  "ex_sweep =
     fst (new_ObservableSocket ''app'' ''wss://example.com/ws/app/'' (Some 1) (Some 2)
            (default_socketConfig\<lparr>cfg_queManager := True\<rparr>))"

definition ex_session :: session where
  "ex_session =
     (fst (new_ObservableSocket ''app'' ''wss://example.com/ws/app/'' (Some 1) (Some 2)
        (default_socketConfig\<lparr>cfg_globalHeaders := [(''token'', JString ''XYZ''), (''lang'', JString ''en'')]\<rparr>)))
     \<lparr>socket := Some OPEN\<rparr>"

definition ex_message :: message where
  "ex_message =
     new_Message ''sayHello'' (Some (JObject [(''name'', JString ''X'')]))
       (Some [(''lang'', JString ''fa'')]) StatusCodes_OK (Some ''u1'') ''r''"

definition ex_nested :: message where
  "ex_nested =
     new_Message ''update''
       (Some (JObject [(''items'', JArray [JNumber (- 3), JString [CHR 0x22, CHR 0x0A], JNull,
                                           JObject [(''ok'', JBool True)]]),
                       (''note'', JString ''a/b'')]))
       None StatusCodes_OK (Some ''u2'') ''r''"

definition ex_frame :: json where
  "ex_frame = JObject [(''uuid'', JString ''u1''), (''route'', JString ''sayHello''),
                       (''payload'', JObject [(''name'', JString ''X'')]), (''status'', JNumber 200)]"

definition ex_open :: session where
  "ex_open = fst (run ex_new [SocketOpen])"

definition ex_pending :: session where
  "ex_pending = fst (run ex_new [SocketOpen, OnResponse ex_message 7 0])"

definition ex_waiting :: session where
  "ex_waiting = fst (step ex_session (OnResponse ex_message 7 0))"

definition ex_closed :: session where
  "ex_closed = fst (run ex_session [SocketClose 1008 0])"

definition ex_exhausted :: session where
  "ex_exhausted =
     fst (run ex_new
       [SocketClose 1006 0, TimerFire 1 0 [], SocketClose 1006 0, TimerFire 2 0 [],
        SocketClose 1006 0, TimerFire 3 0 [], SocketClose 1006 0, TimerFire 4 0 [],
        SocketClose 1006 0, TimerFire 5 0 []])"

section \<open>Properties\<close>

subsection \<open>\<open>Map\<close> and object spread\<close>

lemma map_of_Map_set: "map_of (Map_set k v xs) = (map_of xs)(k \<mapsto> v)"
  by (induction xs) auto

lemma keys_Map_set: "fst ` set (Map_set k v xs) = insert k (fst ` set xs)"
proof (induction xs)
  case Nil
  then show ?case by simp
next
  case (Cons e xs)
  obtain k' v' where e: "e = (k', v')" by (cases e)
  show ?case
  proof (cases "k' = k")
    case True
    then show ?thesis by (simp add: e)
  next
    case False
    then show ?thesis using Cons.IH by (simp add: e insert_commute)
  qed
qed

lemma distinct_Map_set: "distinct (map fst xs) \<Longrightarrow> distinct (map fst (Map_set k v xs))"
proof (induction xs)
  case Nil
  then show ?case by simp
next
  case (Cons e xs)
  obtain k' v' where e: "e = (k', v')" by (cases e)
  show ?case
  proof (cases "k' = k")
    case True
    then show ?thesis using Cons.prems by (simp add: e)
  next
    case False
    then show ?thesis using Cons by (simp add: e keys_Map_set)
  qed
qed

lemma Map_set_same: "map_of xs k = Some v \<Longrightarrow> Map_set k v xs = xs"
  by (induction xs) (auto split: if_splits)

lemma distinct_foldl_Map_set:
  "distinct (map fst g) \<Longrightarrow> distinct (map fst (foldl (\<lambda>acc e. Map_set (fst e) (snd e) acc) g kvs))"
  by (induction kvs arbitrary: g) (simp_all add: distinct_Map_set)

lemma map_of_foldl_Map_set:
  "distinct (map fst kvs) \<Longrightarrow>
   map_of (foldl (\<lambda>acc e. Map_set (fst e) (snd e) acc) g kvs) = map_of g ++ map_of kvs"
proof (induction kvs arbitrary: g)
  case Nil
  then show ?case by simp
next
  case (Cons e kvs)
  obtain k v where e: "e = (k, v)" by (cases e)
  from Cons.prems have nk: "k \<notin> fst ` set kvs" and d: "distinct (map fst kvs)"
    by (simp_all add: e)
  have none: "map_of kvs k = None" using nk by (simp add: map_of_eq_None_iff)
  have "map_of (foldl (\<lambda>acc e. Map_set (fst e) (snd e) acc) (Map_set k v g) kvs)
          = map_of (Map_set k v g) ++ map_of kvs"
    by (rule Cons.IH[OF d])
  also have "\<dots> = map_of g ++ map_of ((k, v) # kvs)"
  proof (rule ext)
    fix x
    show "(map_of (Map_set k v g) ++ map_of kvs) x = (map_of g ++ map_of ((k, v) # kvs)) x"
      using none by (cases "x = k") (auto simp: map_of_Map_set map_add_def split: option.splits)
  qed
  finally show ?case by (simp only: e foldl.simps fst_conv snd_conv)
qed

lemma distinct_spread: "distinct (map fst g) \<Longrightarrow> distinct (map fst (spread g h))"
  by (simp add: spread_def distinct_foldl_Map_set)

lemma map_of_spread:
  "distinct (map fst (case h of None \<Rightarrow> [] | Some kvs \<Rightarrow> kvs)) \<Longrightarrow>
   map_of (spread g h) = map_of g ++ map_of (case h of None \<Rightarrow> [] | Some kvs \<Rightarrow> kvs)"
  by (simp add: spread_def map_of_foldl_Map_set)

lemma map_of_spread_twice:
  assumes "distinct (map fst g)" "distinct (map fst (case h of None \<Rightarrow> [] | Some kvs \<Rightarrow> kvs))"
  shows "map_of (spread g (Some (spread g h))) = map_of g ++ map_of (case h of None \<Rightarrow> [] | Some kvs \<Rightarrow> kvs)"
proof -
  have "map_of (spread g (Some (spread g h))) = map_of g ++ map_of (spread g h)"
    using map_of_spread[of "Some (spread g h)" g] distinct_spread[OF assms(1), of h] by simp
  also have "\<dots> = map_of g ++ (map_of g ++ map_of (case h of None \<Rightarrow> [] | Some kvs \<Rightarrow> kvs))"
    using map_of_spread[OF assms(2)] by simp
  also have "\<dots> = map_of g ++ map_of (case h of None \<Rightarrow> [] | Some kvs \<Rightarrow> kvs)"
    by (rule ext) (simp add: map_add_def split: option.splits)
  finally show ?thesis .
qed

lemma sendMessage_open:
  "socket s = Some OPEN \<Longrightarrow>
   sendMessage s m =
     Inr (m\<lparr>headers := Some (spread (globalHeaders s) (headers m))\<rparr>,
          [SocketSend (serialize (m\<lparr>headers := Some (spread (globalHeaders s) (headers m))\<rparr>))])"
  by (simp add: sendMessage_def ws_send_def Let_def)

lemma sendMessage_not_open:
  "socket s \<noteq> Some OPEN \<Longrightarrow>
   sendMessage s m = Inr (m, [ConsoleError ''Cannot send message: WebSocket is not connected.''])"
  by (simp add: sendMessage_def)

lemma sendMessage_total: "\<exists>r. sendMessage s m = Inr r"
  by (cases "socket s = Some OPEN") (simp_all add: sendMessage_open sendMessage_not_open)

subsection \<open>Sending\<close>

lemma onResponse_eq:
  "onResponse s m cb now =
     (let m1 = m\<lparr>headers := Some (spread (globalHeaders s) (headers m))\<rparr>;
          s' = s\<lparr>pendingRequests :=
                   Map_set (uuid m) \<lparr>onMessage = cb, expire = Some (now + requestTimeout s)\<rparr>
                     (pendingRequests s)\<rparr>
      in if socket s = Some OPEN
         then Inr (s', m\<lparr>headers := Some (spread (globalHeaders s) (Some (spread (globalHeaders s) (headers m))))\<rparr>,
                   [SocketSend (serialize (m\<lparr>headers := Some (spread (globalHeaders s) (Some (spread (globalHeaders s) (headers m))))\<rparr>))])
         else Inr (s', m1, [ConsoleError ''Cannot send message: WebSocket is not connected.'']))"
  by (cases "socket s = Some OPEN")
     (simp_all add: onResponse_def Let_def sendMessage_open sendMessage_not_open)

lemma map_of_spread_own:
  "distinct (map fst (own_headers m)) \<Longrightarrow>
   map_of (spread g (headers m)) = map_of g ++ map_of (own_headers m)"
  using map_of_spread[of "headers m" g] by (simp add: own_headers_def)

lemma map_of_spread_twice_own:
  "distinct (map fst g) \<Longrightarrow> distinct (map fst (own_headers m)) \<Longrightarrow>
   map_of (spread g (Some (spread g (headers m)))) = map_of g ++ map_of (own_headers m)"
  using map_of_spread_twice[of g "headers m"] by (simp add: own_headers_def)

text \<open>
  C10. A send changes the caller's envelope in its headers only. \<open>onResponse\<close> always
  replaces the headers by the merged map, whatever the state of the transport;
  \<open>sendMessage\<close> does so when the transport is open and leaves the envelope as it is
  when not; \<open>sendAndWait\<close> behaves as \<open>onResponse\<close> when the transport is open and
  rejects, touching nothing, when not. The uuid, the route, the payload and the status
  are never changed.
\<close>

theorem send_changes_headers_only:
  assumes g: "distinct (map fst (globalHeaders s))"
    and h: "distinct (map fst (own_headers m))"
  shows "(\<exists>s' hs evs. onResponse s m cb now = Inr (s', m\<lparr>headers := Some hs\<rparr>, evs)
            \<and> map_of hs = map_of (globalHeaders s) ++ map_of (own_headers m))
       \<and> (if socket s = Some OPEN
          then \<exists>hs evs. sendMessage s m = Inr (m\<lparr>headers := Some hs\<rparr>, evs)
                 \<and> map_of hs = map_of (globalHeaders s) ++ map_of (own_headers m)
          else \<exists>evs. sendMessage s m = Inr (m, evs))
       \<and> (if socket s = Some OPEN
          then \<exists>s' hs evs. sendAndWait s m cb now = Inr (s', m\<lparr>headers := Some hs\<rparr>, evs)
                 \<and> map_of hs = map_of (globalHeaders s) ++ map_of (own_headers m)
          else sendAndWait s m cb now = Inl NotConnected)"
proof (cases "socket s = Some OPEN")
  case True
  then show ?thesis
    using map_of_spread_own[OF h, of "globalHeaders s"] map_of_spread_twice_own[OF g h]
    by (simp add: onResponse_eq sendMessage_open sendAndWait_def Let_def; blast)
next
  case False
  then show ?thesis
    using map_of_spread_own[OF h, of "globalHeaders s"]
    by (simp add: onResponse_eq sendMessage_not_open sendAndWait_def Let_def; blast)
qed

lemma ex_simps:
  "globalHeaders ex_session = [(''token'', JString ''XYZ''), (''lang'', JString ''en'')]"
  "socket ex_session = Some OPEN"
  "own_headers ex_message = [(''lang'', JString ''fa'')]"
  "headers ex_message = Some [(''lang'', JString ''fa'')]"
  by (simp_all add: ex_session_def ex_message_def new_ObservableSocket_def connect_def
      default_socketConfig_def new_Message_def own_headers_def)

theorem send_changes_headers_only_witness:
  "distinct (map fst (globalHeaders ex_session)) \<and> distinct (map fst (own_headers ex_message))
   \<and> (\<exists>hs evs. sendMessage ex_session ex_message = Inr (ex_message\<lparr>headers := Some hs\<rparr>, evs)
        \<and> map_of hs ''lang'' = Some (JString ''fa'') \<and> map_of hs ''token'' = Some (JString ''XYZ''))"
proof -
  have g: "distinct (map fst (globalHeaders ex_session))" by (simp add: ex_simps)
  have h: "distinct (map fst (own_headers ex_message))" by (simp add: ex_simps)
  from send_changes_headers_only[OF g h, of 7 0]
  have "\<exists>hs evs. sendMessage ex_session ex_message = Inr (ex_message\<lparr>headers := Some hs\<rparr>, evs)
                 \<and> map_of hs = map_of (globalHeaders ex_session) ++ map_of (own_headers ex_message)"
    by (simp add: ex_simps(2))
  then obtain hs evs where
    1: "sendMessage ex_session ex_message = Inr (ex_message\<lparr>headers := Some hs\<rparr>, evs)"
    and 2: "map_of hs = map_of (globalHeaders ex_session) ++ map_of (own_headers ex_message)"
    by blast
  have "map_of hs ''lang'' = Some (JString ''fa'')" "map_of hs ''token'' = Some (JString ''XYZ'')"
    by (simp_all add: 2 ex_simps)
  with 1 g h show ?thesis by blast
qed

subsection \<open>Failures\<close>

lemma socket_onmessage_total: "\<exists>r. socket_onmessage s p = Inr r"
  by (simp add: socket_onmessage_def split: sum.splits)

lemma heartbeatFire_total: "\<exists>r. heartbeatFire s f = Inr r"
  by (cases "socket s = Some OPEN")
     (simp_all add: heartbeatFire_def sendMessage_open Let_def split_def)

lemma onResponse_total: "\<exists>r. onResponse s m cb now = Inr r"
  by (simp add: onResponse_eq Let_def)

lemma onmessage_try_no_Uncaught:
  "onmessage_try s p = Inr (s', evs) \<Longrightarrow> Uncaught e \<notin> set evs"
  by (auto simp: onmessage_try_def Let_def
      split: option.splits sum.splits if_splits json.splits)

lemma socket_onmessage_no_Uncaught:
  "socket_onmessage s p = Inr (s', evs) \<Longrightarrow> Uncaught e \<notin> set evs"
  by (auto simp: socket_onmessage_def dest: onmessage_try_no_Uncaught split: sum.splits)

lemma heartbeatFire_no_Uncaught:
  "heartbeatFire s f = Inr (s', evs) \<Longrightarrow> Uncaught e \<notin> set evs"
  by (cases "socket s = Some OPEN")
     (auto simp: heartbeatFire_def sendMessage_open Let_def split_def)

lemma ws_close_no_Uncaught: "Uncaught e \<notin> set (snd (ws_close s))"
  by (simp add: ws_close_def split: option.splits ready_state.splits)

lemma timerFire_no_Uncaught: "Uncaught e \<notin> set (snd (timerFire s t now f))"
proof (cases "map_of (timers s) t")
  case None
  then show ?thesis by (simp add: timerFire_def)
next
  case (Some k)
  show ?thesis
  proof (cases k)
    case HeartbeatTick
    obtain s' evs where r: "heartbeatFire s f = Inr (s', evs)"
      using heartbeatFire_total[of s f] by (cases "heartbeatFire s f") auto
    then show ?thesis using Some HeartbeatTick heartbeatFire_no_Uncaught[OF r]
      by (simp add: timerFire_def uncaught_def)
  next
    case HeartbeatTimeout
    then show ?thesis using Some ws_close_no_Uncaught[of e "clearTimer t s"]
      by (simp add: timerFire_def heartbeatTimeoutFire_def split_def Let_def)
  next
    case QueManagerTick
    then show ?thesis using Some
      by (auto simp: timerFire_def queManagerFire_def failPending_def)
  next
    case Reconnect
    then show ?thesis using Some
      by (simp add: timerFire_def reconnectFire_def connect_def)
  qed
qed

lemma socket_onclose_no_Uncaught: "Uncaught e \<notin> set (snd (socket_onclose s code j))"
  by (auto simp: socket_onclose_def notifyConnectionChange_def failPending_def Let_def split_def
      split: option.splits)

lemma step_no_Uncaught: "Uncaught e \<notin> set (snd (step s i))"
proof (cases i)
  case SocketOpen
  then show ?thesis
    by (simp add: socket_onopen_def notifyConnectionChange_def Let_def split: option.splits)
next
  case (SocketMessage p)
  obtain s' evs where r: "socket_onmessage s p = Inr (s', evs)"
    using socket_onmessage_total[of s p] by (cases "socket_onmessage s p") auto
  then show ?thesis using SocketMessage socket_onmessage_no_Uncaught[OF r]
    by (simp add: uncaught_def)
next
  case SocketError
  then show ?thesis by (simp add: socket_onerror_def)
next
  case (SocketClose code j)
  then show ?thesis using socket_onclose_no_Uncaught by simp
next
  case (TimerFire t now f)
  then show ?thesis using timerFire_no_Uncaught by simp
next
  case (SendMessage m)
  then show ?thesis
    by (cases "socket s = Some OPEN") (simp_all add: sendMessage_open sendMessage_not_open)
next
  case (OnResponse m cb now)
  then show ?thesis by (simp add: onResponse_eq Let_def)
next
  case (SendAndWait m cb now)
  then show ?thesis by (simp add: sendAndWait_def onResponse_eq Let_def)
next
  case Close
  then show ?thesis using ws_close_no_Uncaught by (simp add: close_def)
qed

lemma run_no_Uncaught: "Uncaught e \<notin> set (snd (run s is))"
proof (induction "is" arbitrary: s)
  case Nil
  then show ?case by simp
next
  case (Cons i "is")
  show ?case using step_no_Uncaught[of e s i] Cons.IH[of "fst (step s i)"]
    by (simp add: split_def Let_def)
qed

text \<open>
  C8. Of the public operations only \<open>sendAndWait\<close> fails towards its caller, and it does
  so exactly when the transport is not open at the call. \<open>sendMessage\<close> and
  \<open>onResponse\<close> always return; the message handler catches what parsing and reading the
  frame throw, the heartbeat sends only on an open transport, and no task of any
  execution ends in an uncaught exception.
\<close>

theorem only_sendAndWait_fails:
  "(\<exists>r. sendMessage s m = Inr r)
   \<and> (\<exists>r. onResponse s m cb now = Inr r)
   \<and> (sendAndWait s m cb now = Inl NotConnected) = (socket s \<noteq> Some OPEN)
   \<and> (\<exists>r. sendAndWait s m cb now = Inr r) = (socket s = Some OPEN)
   \<and> (\<exists>r. socket_onmessage s parsed = Inr r)
   \<and> (\<exists>r. heartbeatFire s fresh = Inr r)
   \<and> (\<forall>e. Uncaught e \<notin> set (snd (run s inputs)))"
proof -
  have a: "(sendAndWait s m cb now = Inl NotConnected) = (socket s \<noteq> Some OPEN)"
    using onResponse_total[of s m cb now] by (auto simp: sendAndWait_def)
  have b: "(\<exists>r. sendAndWait s m cb now = Inr r) = (socket s = Some OPEN)"
    using onResponse_total[of s m cb now] by (auto simp: sendAndWait_def)
  show ?thesis
    using sendMessage_total onResponse_total socket_onmessage_total heartbeatFire_total
      run_no_Uncaught a b by blast
qed

subsection \<open>The pending-request table\<close>

lemma pendingRequests_clearTimer [simp]: "pendingRequests (clearTimer t s) = pendingRequests s"
  by (simp add: clearTimer_def)

lemma pendingRequests_stopQueManager [simp]: "pendingRequests (stopQueManager s) = pendingRequests s"
  by (simp add: stopQueManager_def split: option.splits)

lemma pendingRequests_stopHeartbeat [simp]: "pendingRequests (stopHeartbeat s) = pendingRequests s"
  by (simp add: stopHeartbeat_def Let_def split: option.splits)

lemma socket_onclose_events:
  "\<exists>rest. snd (socket_onclose s code j) = failPending (pendingRequests s) @ rest
      \<and> (\<forall>cb r. WaiterCallback cb r \<notin> set rest)"
  by (auto simp: socket_onclose_def Let_def split_def notifyConnectionChange_def split: option.splits)

lemma socket_onclose_pending [simp]: "pendingRequests (fst (socket_onclose s code j)) = []"
  by (simp add: socket_onclose_def Let_def split_def setTimer_def)

lemma Map_get_Map_set_same [simp]: "Map_get (Map_set k v xs) k = Some v"
  by (simp add: Map_get_def map_of_Map_set)

lemma Map_get_Map_delete_same [simp]: "Map_get (Map_delete k xs) k = None"
  by (induction xs) (auto simp: Map_get_def Map_delete_def)

lemma failPending_mem:
  "(k, q) \<in> set ps \<Longrightarrow> WaiterCallback (onMessage q) (Response None False) \<in> set (failPending ps)"
  by (force simp: failPending_def)

lemma Map_get_mem: "Map_get ps k = Some q \<Longrightarrow> (k, q) \<in> set ps"
  by (simp add: Map_get_def map_of_SomeD)

lemma ex_closed_socket: "socket ex_closed = Some CLOSED"
  by (simp add: ex_closed_def ex_session_def new_ObservableSocket_def connect_def
      socket_onclose_def stopHeartbeat_def stopQueManager_def Let_def default_socketConfig_def)

subsection \<open>Inbound frames\<close>

lemma ex_waiting_eq:
  "ex_waiting = ex_session\<lparr>pendingRequests := [(''u1'', \<lparr>onMessage = 7, expire = Some 30000\<rparr>)]\<rparr>"
  by (simp add: ex_waiting_def onResponse_eq Let_def ex_simps)
     (simp add: ex_session_def ex_message_def new_Message_def new_ObservableSocket_def connect_def
        default_socketConfig_def clamp_requestTimeout_def MAX_TIMEOUT_def MIN_QUE_TIMEOUT_def)

text \<open>
  C4. A frame that parses to a value other than \<open>null\<close> and whose route is not
  \<open>"PONG"\<close> is given to the push callback (when the session has one) with
  \<open>success: true\<close>. When its uuid is the key of a pending request, the waiter's handler is
  called next, in the same task, with the same response, and the entry is deleted;
  otherwise nothing else happens and the session is unchanged.
\<close>

theorem frame_goes_to_push_then_waiter:
  assumes "msg \<noteq> JNull"
    and "get_prop msg ''route'' \<noteq> Inr (Some (JString ''PONG''))"
  shows "\<exists>s' w. socket_onmessage s (Some msg)
            = Inr (s', (case onMessageReceived s of
                          None \<Rightarrow> []
                        | Some cb \<Rightarrow> [PushCallback cb (Response (Some msg) True)]) @ w)
       \<and> (\<forall>u q. get_prop msg ''uuid'' = Inr (Some (JString u)) \<and> Map_get (pendingRequests s) u = Some q \<longrightarrow>
              w = [WaiterCallback (onMessage q) (Response (Some msg) True)]
              \<and> s' = s\<lparr>pendingRequests := Map_delete u (pendingRequests s)\<rparr>
              \<and> Map_get (pendingRequests s') u = None)
       \<and> ((\<forall>u. get_prop msg ''uuid'' = Inr (Some (JString u)) \<longrightarrow> Map_get (pendingRequests s) u = None) \<longrightarrow>
              w = [] \<and> s' = s)"
proof -
  obtain r where r: "get_prop msg ''route'' = Inr r" and rn: "r \<noteq> Some (JString ''PONG'')"
    using assms by (cases msg) (auto simp: get_prop_def)
  have u: "get_prop msg ''uuid'' = Inr (case msg of JObject kvs \<Rightarrow> map_of kvs ''uuid'' | _ \<Rightarrow> None)"
    using assms(1) by (cases msg) (auto simp: get_prop_def)
  show ?thesis
  proof (cases "\<exists>u q. get_prop msg ''uuid'' = Inr (Some (JString u)) \<and> Map_get (pendingRequests s) u = Some q")
    case True
    then obtain u q where 1: "get_prop msg ''uuid'' = Inr (Some (JString u))"
      and 2: "Map_get (pendingRequests s) u = Some q" by blast
    have E: "socket_onmessage s (Some msg)
            = Inr (s\<lparr>pendingRequests := Map_delete u (pendingRequests s)\<rparr>,
                   (case onMessageReceived s of
                          None \<Rightarrow> []
                        | Some cb \<Rightarrow> [PushCallback cb (Response (Some msg) True)])
                   @ [WaiterCallback (onMessage q) (Response (Some msg) True)])"
      using r rn 1 2 by (simp add: socket_onmessage_def onmessage_try_def Let_def)
    show ?thesis
      by (rule exI[of _ "s\<lparr>pendingRequests := Map_delete u (pendingRequests s)\<rparr>"],
          rule exI[of _ "[WaiterCallback (onMessage q) (Response (Some msg) True)]"])
         (use E 1 2 in auto)
  next
    case False
    have E: "socket_onmessage s (Some msg)
            = Inr (s, (case onMessageReceived s of
                          None \<Rightarrow> []
                        | Some cb \<Rightarrow> [PushCallback cb (Response (Some msg) True)]) @ [])"
      using r rn False u
      by (auto simp: socket_onmessage_def onmessage_try_def Let_def
          split: option.splits json.splits sum.splits)
    show ?thesis
      by (rule exI[of _ s], rule exI[of _ "[]"]) (use E False in auto)
  qed
qed

theorem frame_goes_to_push_then_waiter_witness:
  "ex_frame \<noteq> JNull \<and> get_prop ex_frame ''route'' \<noteq> Inr (Some (JString ''PONG''))
   \<and> socket_onmessage ex_waiting (Some ex_frame)
       = Inr (ex_waiting\<lparr>pendingRequests := []\<rparr>,
              [PushCallback 2 (Response (Some ex_frame) True),
               WaiterCallback 7 (Response (Some ex_frame) True)])
   \<and> socket_onmessage ex_waiting (Some (JObject [(''route'', JString ''news'')]))
       = Inr (ex_waiting, [PushCallback 2 (Response (Some (JObject [(''route'', JString ''news'')])) True)])"
proof -
  have a: "ex_frame \<noteq> JNull" by (simp add: ex_frame_def)
  have b: "get_prop ex_frame ''route'' \<noteq> Inr (Some (JString ''PONG''))"
    by (simp add: ex_frame_def get_prop_def)
  have u: "get_prop ex_frame ''uuid'' = Inr (Some (JString ''u1''))"
    by (simp add: ex_frame_def get_prop_def)
  have p: "Map_get (pendingRequests ex_waiting) ''u1'' = Some \<lparr>onMessage = 7, expire = Some 30000\<rparr>"
    by (simp add: ex_waiting_eq Map_get_def)
  have cb: "onMessageReceived ex_waiting = Some 2"
    by (simp add: ex_waiting_eq ex_session_def new_ObservableSocket_def connect_def)
  from frame_goes_to_push_then_waiter[OF a b, of ex_waiting]
  obtain s' w where
    1: "socket_onmessage ex_waiting (Some ex_frame)
          = Inr (s', [PushCallback 2 (Response (Some ex_frame) True)] @ w)"
    and 2: "\<forall>u q. get_prop ex_frame ''uuid'' = Inr (Some (JString u))
                \<and> Map_get (pendingRequests ex_waiting) u = Some q \<longrightarrow>
              w = [WaiterCallback (onMessage q) (Response (Some ex_frame) True)]
              \<and> s' = ex_waiting\<lparr>pendingRequests := Map_delete u (pendingRequests ex_waiting)\<rparr>
              \<and> Map_get (pendingRequests s') u = None"
    unfolding cb by auto
  from 2 u p have "w = [WaiterCallback 7 (Response (Some ex_frame) True)]"
    and "s' = ex_waiting\<lparr>pendingRequests := Map_delete ''u1'' (pendingRequests ex_waiting)\<rparr>"
    by auto
  moreover have "Map_delete ''u1'' (pendingRequests ex_waiting) = []"
    by (simp add: ex_waiting_eq Map_delete_def)
  ultimately have A: "socket_onmessage ex_waiting (Some ex_frame)
       = Inr (ex_waiting\<lparr>pendingRequests := []\<rparr>,
              [PushCallback 2 (Response (Some ex_frame) True),
               WaiterCallback 7 (Response (Some ex_frame) True)])"
    using 1 by simp
  let ?news = "JObject [(''route'', JString ''news'')]"
  have a': "?news \<noteq> JNull" by simp
  have b': "get_prop ?news ''route'' \<noteq> Inr (Some (JString ''PONG''))"
    by (simp add: get_prop_def)
  have u': "\<forall>u. get_prop ?news ''uuid'' = Inr (Some (JString u))
              \<longrightarrow> Map_get (pendingRequests ex_waiting) u = None"
    by (simp add: get_prop_def)
  from frame_goes_to_push_then_waiter[OF a' b', of ex_waiting]
  obtain s'' w' where
    3: "socket_onmessage ex_waiting (Some ?news)
          = Inr (s'', [PushCallback 2 (Response (Some ?news) True)] @ w')"
    and 4: "(\<forall>u. get_prop ?news ''uuid'' = Inr (Some (JString u))
                \<longrightarrow> Map_get (pendingRequests ex_waiting) u = None) \<longrightarrow> w' = [] \<and> s'' = ex_waiting"
    unfolding cb by auto
  from 4 u' have "w' = []" "s'' = ex_waiting" by simp_all
  with 3 have B: "socket_onmessage ex_waiting (Some ?news)
       = Inr (ex_waiting, [PushCallback 2 (Response (Some ?news) True)])" by simp
  show ?thesis using A B a b by simp
qed

subsection \<open>Timers\<close>

lemma timers_ownedI:
  "(\<And>t k. (t, k) \<in> set (timers s) \<Longrightarrow> owned s (t, k)) \<Longrightarrow> timers_owned s"
  by (auto simp: timers_owned_def list_all_iff)

lemma timers_ownedD: "timers_owned s \<Longrightarrow> (t, k) \<in> set (timers s) \<Longrightarrow> owned s (t, k)"
  by (auto simp: timers_owned_def list_all_iff)

lemma timers_stoppedI:
  "heartbeatInterval s = None \<Longrightarrow> heartbeatTimeout s = None \<Longrightarrow> queManagerInterval s = None \<Longrightarrow>
   timers_owned s \<Longrightarrow> timers_stopped s"
proof -
  assume f: "heartbeatInterval s = None" "heartbeatTimeout s = None" "queManagerInterval s = None"
    and inv: "timers_owned s"
  have "k = Reconnect" if "(t, k) \<in> set (timers s)" for t k
    using timers_ownedD[OF inv that] f by (cases k) simp_all
  then show ?thesis using f by (auto simp: timers_stopped_def list_all_iff)
qed

lemma clearTimer_simps [simp]:
  "heartbeatInterval (clearTimer t s) = heartbeatInterval s"
  "heartbeatTimeout (clearTimer t s) = heartbeatTimeout s"
  "queManagerInterval (clearTimer t s) = queManagerInterval s"
  "nextTimer (clearTimer t s) = nextTimer s"
  "set (timers (clearTimer t s)) = {e \<in> set (timers s). fst e \<noteq> t}"
  by (auto simp: clearTimer_def)

lemma clearTimer_owned: "timers_owned s \<Longrightarrow> timers_owned (clearTimer t s)"
proof (rule timers_ownedI)
  fix t' k assume inv: "timers_owned s" and m: "(t', k) \<in> set (timers (clearTimer t s))"
  then have "owned s (t', k)" by (auto dest: timers_ownedD)
  then show "owned (clearTimer t s) (t', k)" by (cases k) simp_all
qed

lemma stopQueManager_owned: "timers_owned s \<Longrightarrow> timers_owned (stopQueManager s)"
proof (cases "queManagerInterval s")
  case None
  then show "timers_owned s \<Longrightarrow> ?thesis" by (simp add: stopQueManager_def)
next
  case (Some t)
  assume inv: "timers_owned s"
  show ?thesis
  proof (rule timers_ownedI)
    fix t' k assume "(t', k) \<in> set (timers (stopQueManager s))"
    then have m: "(t', k) \<in> set (timers s)" and ne: "t' \<noteq> t"
      using Some by (simp_all add: stopQueManager_def)
    from timers_ownedD[OF inv m] ne Some show "owned (stopQueManager s) (t', k)"
      by (cases k) (simp_all add: stopQueManager_def)
  qed
qed

lemma stopQueManager_field [simp]: "queManagerInterval (stopQueManager s) = None"
  by (simp add: stopQueManager_def split: option.splits)

lemma stopQueManager_other [simp]:
  "heartbeatInterval (stopQueManager s) = heartbeatInterval s"
  "heartbeatTimeout (stopQueManager s) = heartbeatTimeout s"
  by (simp_all add: stopQueManager_def split: option.splits)

lemma stopHeartbeat_fields [simp]:
  "heartbeatInterval (stopHeartbeat s) = None"
  "heartbeatTimeout (stopHeartbeat s) = None"
  "queManagerInterval (stopHeartbeat s) = queManagerInterval s"
  by (simp_all add: stopHeartbeat_def Let_def split: option.splits)

lemma stopHeartbeat_timers:
  "set (timers (stopHeartbeat s)) =
     {e \<in> set (timers s). Some (fst e) \<noteq> heartbeatInterval s \<and> Some (fst e) \<noteq> heartbeatTimeout s}"
  by (auto simp: stopHeartbeat_def Let_def split: option.splits)

lemma stopHeartbeat_owned: "timers_owned s \<Longrightarrow> timers_owned (stopHeartbeat s)"
proof (rule timers_ownedI)
  fix t k assume inv: "timers_owned s" and "(t, k) \<in> set (timers (stopHeartbeat s))"
  then have m: "(t, k) \<in> set (timers s)" and ne: "Some t \<noteq> heartbeatInterval s" "Some t \<noteq> heartbeatTimeout s"
    by (simp_all add: stopHeartbeat_timers)
  from timers_ownedD[OF inv m] ne show "owned (stopHeartbeat s) (t, k)"
    by (cases k) simp_all
qed

lemma stops_stopped:
  "timers_owned s \<Longrightarrow> timers_stopped (stopHeartbeat (stopQueManager s))"
  by (rule timers_stoppedI) (simp_all add: stopQueManager_owned stopHeartbeat_owned)

lemma setTimer_simps [simp]:
  "fst (setTimer k s) = nextTimer s"
  "heartbeatInterval (snd (setTimer k s)) = heartbeatInterval s"
  "heartbeatTimeout (snd (setTimer k s)) = heartbeatTimeout s"
  "queManagerInterval (snd (setTimer k s)) = queManagerInterval s"
  "set (timers (snd (setTimer k s))) = insert (nextTimer s, k) (set (timers s))"
  by (simp_all add: setTimer_def)

lemma startHeartbeat_owned: "timers_owned s \<Longrightarrow> timers_owned (startHeartbeat s)"
proof (rule timers_ownedI)
  fix t k assume inv: "timers_owned s" and m: "(t, k) \<in> set (timers (startHeartbeat s))"
  have f: "heartbeatInterval (startHeartbeat s) = Some (nextTimer s)"
    "heartbeatTimeout (startHeartbeat s) = heartbeatTimeout s"
    "queManagerInterval (startHeartbeat s) = queManagerInterval s"
    by (simp_all add: startHeartbeat_def Let_def split_def split: option.splits)
  from m have "(t, k) = (nextTimer s, HeartbeatTick)
      \<or> ((t, k) \<in> set (timers s) \<and> Some t \<noteq> heartbeatInterval s)"
    by (auto simp: startHeartbeat_def Let_def split_def split: option.splits)
  then show "owned (startHeartbeat s) (t, k)"
  proof
    assume "(t, k) = (nextTimer s, HeartbeatTick)"
    then show ?thesis using f by simp
  next
    assume a: "(t, k) \<in> set (timers s) \<and> Some t \<noteq> heartbeatInterval s"
    with timers_ownedD[OF inv, of t k] show ?thesis using f by (cases k) simp_all
  qed
qed

lemma startQueManager_owned: "timers_owned s \<Longrightarrow> timers_owned (startQueManager s)"
proof (rule timers_ownedI)
  fix t k assume inv: "timers_owned s" and m: "(t, k) \<in> set (timers (startQueManager s))"
  have f: "queManagerInterval (startQueManager s) = Some (nextTimer s)"
    "heartbeatTimeout (startQueManager s) = heartbeatTimeout s"
    "heartbeatInterval (startQueManager s) = heartbeatInterval s"
    by (simp_all add: startQueManager_def Let_def split_def split: option.splits)
  from m have "(t, k) = (nextTimer s, QueManagerTick)
      \<or> ((t, k) \<in> set (timers s) \<and> Some t \<noteq> queManagerInterval s)"
    by (auto simp: startQueManager_def Let_def split_def split: option.splits)
  then show "owned (startQueManager s) (t, k)"
  proof
    assume "(t, k) = (nextTimer s, QueManagerTick)"
    then show ?thesis using f by simp
  next
    assume a: "(t, k) \<in> set (timers s) \<and> Some t \<noteq> queManagerInterval s"
    with timers_ownedD[OF inv, of t k] show ?thesis using f by (cases k) simp_all
  qed
qed

lemma timers_owned_cong:
  assumes "timers s' = timers s" "heartbeatInterval s' = heartbeatInterval s"
    "heartbeatTimeout s' = heartbeatTimeout s" "queManagerInterval s' = queManagerInterval s"
  shows "timers_owned s' = timers_owned s"
proof -
  have "owned s' e = owned s e" for e
  proof (cases e)
    case (Pair t k)
    then show ?thesis using assms by (cases k) simp_all
  qed
  then have "owned s' = owned s" by (simp add: fun_eq_iff)
  then show ?thesis using assms(1) by (simp add: timers_owned_def)
qed

lemma setTimer_Reconnect_owned: "timers_owned s \<Longrightarrow> timers_owned (snd (setTimer Reconnect s))"
proof (rule timers_ownedI)
  fix t k assume inv: "timers_owned s" and "(t, k) \<in> set (timers (snd (setTimer Reconnect s)))"
  then have "(t, k) = (nextTimer s, Reconnect) \<or> (t, k) \<in> set (timers s)" by simp
  then show "owned (snd (setTimer Reconnect s)) (t, k)"
    using timers_ownedD[OF inv, of t k] by (cases k) auto
qed

lemma ws_close_owned: "timers_owned (fst (ws_close s)) = timers_owned s"
  by (rule timers_owned_cong) (simp_all add: ws_close_def split: option.splits ready_state.splits)

lemma close_owned: "timers_owned s \<Longrightarrow> timers_owned (fst (close s))"
proof -
  assume "timers_owned s"
  then have "timers_owned (s\<lparr>manuallyClosed := True\<rparr>)"
    using timers_owned_cong[of "s\<lparr>manuallyClosed := True\<rparr>" s] by simp
  then show ?thesis by (simp add: close_def ws_close_owned stopHeartbeat_owned stopQueManager_owned)
qed

lemma socket_onopen_owned: "timers_owned s \<Longrightarrow> timers_owned (fst (socket_onopen s))"
proof -
  assume "timers_owned s"
  then have "timers_owned (s\<lparr>reconnectAttempts := 0\<rparr>)"
    using timers_owned_cong[of "s\<lparr>reconnectAttempts := 0\<rparr>" s] by simp
  then show ?thesis
    by (simp add: socket_onopen_def Let_def startHeartbeat_owned startQueManager_owned)
qed

lemma socket_onclose_owned: "timers_owned s \<Longrightarrow> timers_owned (fst (socket_onclose s code j))"
proof -
  assume "timers_owned s"
  then have 1: "timers_owned (stopHeartbeat (stopQueManager s))"
    by (simp add: stopHeartbeat_owned stopQueManager_owned)
  then have 2: "timers_owned ((stopHeartbeat (stopQueManager s))\<lparr>pendingRequests := []\<rparr>)"
    using timers_owned_cong[of "(stopHeartbeat (stopQueManager s))\<lparr>pendingRequests := []\<rparr>"
        "stopHeartbeat (stopQueManager s)"] by simp
  show ?thesis using 2 setTimer_Reconnect_owned[OF 2]
    by (simp add: socket_onclose_def Let_def split_def)
qed

lemma socket_onmessage_owned:
  assumes "timers_owned s" "socket_onmessage s p = Inr (s', evs)"
  shows "timers_owned s'"
proof -
  have "s' = s \<or> (\<exists>t. s' = clearTimer t s) \<or> (\<exists>ps. s' = s\<lparr>pendingRequests := ps\<rparr>)"
    using assms(2)
    by (auto simp: socket_onmessage_def onmessage_try_def Let_def
        split: sum.splits option.splits if_splits json.splits)
  then show ?thesis
  proof (elim disjE exE)
    assume "s' = s" then show ?thesis using assms(1) by simp
  next
    fix t assume "s' = clearTimer t s" then show ?thesis using assms(1) by (simp add: clearTimer_owned)
  next
    fix ps assume "s' = s\<lparr>pendingRequests := ps\<rparr>"
    then show ?thesis using assms(1) timers_owned_cong[of s' s] by simp
  qed
qed

lemma heartbeatFire_owned:
  assumes inv: "timers_owned s" and r: "heartbeatFire s f = Inr (s', evs)"
  shows "timers_owned s'"
proof (cases "socket s = Some OPEN")
  case False
  then show ?thesis using assms by (simp add: heartbeatFire_def)
next
  case True
  let ?s1 = "case heartbeatTimeout s of Some t \<Rightarrow> clearTimer t s | None \<Rightarrow> s"
  have s': "s' = (snd (setTimer HeartbeatTimeout ?s1))\<lparr>heartbeatTimeout := Some (nextTimer s)\<rparr>"
    using r True by (auto simp: heartbeatFire_def sendMessage_open Let_def split_def split: option.splits)
  show ?thesis
  proof (rule timers_ownedI)
    fix t k assume "(t, k) \<in> set (timers s')"
    then have "(t, k) = (nextTimer s, HeartbeatTimeout)
        \<or> ((t, k) \<in> set (timers s) \<and> Some t \<noteq> heartbeatTimeout s)"
      by (auto simp: s' split: option.splits)
    then show "owned s' (t, k)"
    proof
      assume "(t, k) = (nextTimer s, HeartbeatTimeout)"
      then show ?thesis by (simp add: s')
    next
      assume a: "(t, k) \<in> set (timers s) \<and> Some t \<noteq> heartbeatTimeout s"
      with timers_ownedD[OF inv, of t k] show ?thesis
        by (cases k) (simp_all add: s' split: option.splits)
    qed
  qed
qed

lemma timerFire_owned: "timers_owned s \<Longrightarrow> timers_owned (fst (timerFire s t now f))"
proof (cases "map_of (timers s) t")
  case None
  then show "timers_owned s \<Longrightarrow> ?thesis" by (simp add: timerFire_def)
next
  case (Some k)
  assume inv: "timers_owned s"
  show ?thesis
  proof (cases k)
    case HeartbeatTick
    obtain s' evs where r: "heartbeatFire s f = Inr (s', evs)"
      using heartbeatFire_total[of s f] by (cases "heartbeatFire s f") auto
    then show ?thesis using Some HeartbeatTick heartbeatFire_owned[OF inv r]
      by (simp add: timerFire_def uncaught_def)
  next
    case HeartbeatTimeout
    then show ?thesis using Some clearTimer_owned[OF inv, of t]
      by (simp add: timerFire_def heartbeatTimeoutFire_def split_def Let_def ws_close_owned)
  next
    case QueManagerTick
    then show ?thesis using Some inv
        timers_owned_cong[of "s\<lparr>pendingRequests := filter (\<lambda>e. \<not> expired now (snd e)) (pendingRequests s)\<rparr>" s]
      by (simp add: timerFire_def queManagerFire_def)
  next
    case Reconnect
    have "timers_owned (fst (reconnectFire (clearTimer t s))) = timers_owned (clearTimer t s)"
      by (rule timers_owned_cong) (simp_all add: reconnectFire_def connect_def)
    then show ?thesis using Some Reconnect clearTimer_owned[OF inv, of t]
      by (simp add: timerFire_def)
  qed
qed

lemma step_owned: "timers_owned s \<Longrightarrow> timers_owned (fst (step s i))"
proof (cases i)
  case SocketOpen
  assume inv: "timers_owned s"
  then have "timers_owned (s\<lparr>socket := Some OPEN\<rparr>)"
    using timers_owned_cong[of "s\<lparr>socket := Some OPEN\<rparr>" s] by simp
  then show ?thesis using SocketOpen inv by (simp add: socket_onopen_owned)
next
  case (SocketMessage p)
  assume inv: "timers_owned s"
  obtain s' evs where r: "socket_onmessage s p = Inr (s', evs)"
    using socket_onmessage_total[of s p] by (cases "socket_onmessage s p") auto
  then show ?thesis using SocketMessage inv socket_onmessage_owned[OF inv r]
    by (simp add: uncaught_def)
next
  case SocketError
  then show "timers_owned s \<Longrightarrow> ?thesis" by (simp add: socket_onerror_def)
next
  case (SocketClose code j)
  assume inv: "timers_owned s"
  then have "timers_owned (s\<lparr>socket := Some CLOSED\<rparr>)"
    using timers_owned_cong[of "s\<lparr>socket := Some CLOSED\<rparr>" s] by simp
  then show ?thesis using SocketClose inv by (simp add: socket_onclose_owned)
next
  case (TimerFire t now f)
  then show "timers_owned s \<Longrightarrow> ?thesis" by (simp add: timerFire_owned)
next
  case (SendMessage m)
  then show "timers_owned s \<Longrightarrow> ?thesis"
    by (cases "socket s = Some OPEN") (simp_all add: sendMessage_open sendMessage_not_open)
next
  case (OnResponse m cb now)
  assume inv: "timers_owned s"
  show ?thesis using OnResponse inv
      timers_owned_cong[of "s\<lparr>pendingRequests := Map_set (uuid m) \<lparr>onMessage = cb, expire = Some (now + requestTimeout s)\<rparr> (pendingRequests s)\<rparr>" s]
    by (simp add: onResponse_eq Let_def)
next
  case (SendAndWait m cb now)
  assume inv: "timers_owned s"
  show ?thesis using SendAndWait inv
      timers_owned_cong[of "s\<lparr>pendingRequests := Map_set (uuid m) \<lparr>onMessage = cb, expire = Some (now + requestTimeout s)\<rparr> (pendingRequests s)\<rparr>" s]
    by (simp add: sendAndWait_def onResponse_eq Let_def)
next
  case Close
  then show "timers_owned s \<Longrightarrow> ?thesis" by (simp add: close_owned)
qed

lemma run_owned: "timers_owned s \<Longrightarrow> timers_owned (fst (run s is))"
proof (induction "is" arbitrary: s)
  case Nil
  then show ?case by simp
next
  case (Cons i "is")
  from Cons.IH[OF step_owned[OF Cons.prems, of i]] show ?case
    by (simp add: split_def Let_def)
qed

lemma new_ObservableSocket_owned:
  "timers_owned (fst (new_ObservableSocket nm url c1 c2 cfg))"
  by (simp add: new_ObservableSocket_def connect_def timers_owned_def)

subsection \<open>Closing\<close>

lemmas eval_defs =
  new_ObservableSocket_def connect_def default_socketConfig_def clamp_requestTimeout_def
  MAX_TIMEOUT_def MIN_QUE_TIMEOUT_def socket_onopen_def socket_onclose_def socket_onerror_def
  notifyConnectionChange_def startHeartbeat_def stopHeartbeat_def startQueManager_def
  stopQueManager_def setTimer_def clearTimer_def failPending_def close_def ws_close_def
  timerFire_def reconnectFire_def queManagerFire_def heartbeatTimeoutFire_def expired_def
  reconnect_delay_def reconnect_backoff_def new_Message_def StatusCodes_OK_def
  onResponse_eq sendAndWait_def Let_def

lemma ex_new_eq:
  "ex_new = \<lparr>name = ''app'', socket = Some CONNECTING, pendingRequests = [],
        onMessageReceived = Some 2, onSocketConnectionChange = Some 1,
        manuallyClosed = False, reconnectAttempts = 0,
        heartbeatInterval = None, heartbeatTimeout = None, queManagerInterval = None,
        requestTimeout = 30000, queManagerTimeout = 5000, maxReconnectAttempts = 5,
        heartbeatRate = 60000, heartbeatTimeoutDuration = 59000, enableQueManager = False,
        globalHeaders = [], socketUrl = ''wss://example.com/ws/app/'', timers = [], nextTimer = 1\<rparr>"
  by (simp add: ex_new_def eval_defs)

lemma ex_pending_eval:
  "pendingRequests ex_pending = [(''u1'', \<lparr>onMessage = 7, expire = Some 30000\<rparr>)]"
  "socket ex_pending = Some OPEN"
  "timers ex_pending = [(1, HeartbeatTick)]"
  by (simp_all add: ex_pending_def ex_new_eq ex_message_def eval_defs)

lemma waiter_calls_failPending [simp]: "filter is_waiter_call (failPending ps) = failPending ps"
  by (induction ps) (simp_all add: failPending_def)

lemma waiter_calls_notify [simp]: "filter is_waiter_call (notifyConnectionChange s b) = []"
  by (simp add: notifyConnectionChange_def split: option.splits)

lemma waiter_calls_ws_close [simp]: "filter is_waiter_call (snd (ws_close s)) = []"
  by (simp add: ws_close_def split: option.splits ready_state.splits)

lemma pendingRequests_ws_close [simp]: "pendingRequests (fst (ws_close s)) = pendingRequests s"
  by (simp add: ws_close_def split: option.splits ready_state.splits)

lemma manuallyClosed_ws_close [simp]: "manuallyClosed (fst (ws_close s)) = manuallyClosed s"
  by (simp add: ws_close_def split: option.splits ready_state.splits)

lemma manuallyClosed_stops [simp]:
  "manuallyClosed (stopHeartbeat s) = manuallyClosed s"
  "manuallyClosed (stopQueManager s) = manuallyClosed s"
  by (simp_all add: stopHeartbeat_def stopQueManager_def clearTimer_def Let_def split: option.splits)

lemma socket_stops [simp]:
  "socket (stopHeartbeat s) = socket s"
  "socket (stopQueManager s) = socket s"
  by (simp_all add: stopHeartbeat_def stopQueManager_def clearTimer_def Let_def split: option.splits)

lemma timers_stopped_cong:
  assumes "timers s' = timers s" "heartbeatInterval s' = heartbeatInterval s"
    "heartbeatTimeout s' = heartbeatTimeout s" "queManagerInterval s' = queManagerInterval s"
  shows "timers_stopped s' = timers_stopped s"
  using assms by (simp add: timers_stopped_def)

lemma close_stopped: "timers_owned s \<Longrightarrow> timers_stopped (fst (close s))"
proof -
  assume "timers_owned s"
  then have "timers_owned (s\<lparr>manuallyClosed := True\<rparr>)"
    using timers_owned_cong[of "s\<lparr>manuallyClosed := True\<rparr>" s] by simp
  from stops_stopped[OF this] show ?thesis
    using timers_stopped_cong[of "fst (close s)" "stopHeartbeat (stopQueManager (s\<lparr>manuallyClosed := True\<rparr>))"]
    by (simp add: close_def ws_close_def split: option.splits ready_state.splits)
qed

lemma socket_onclose_stopped: "timers_owned s \<Longrightarrow> timers_stopped (fst (socket_onclose s code j))"
proof -
  assume "timers_owned s"
  from stops_stopped[OF this] show ?thesis
    by (simp add: socket_onclose_def Let_def split_def timers_stopped_def setTimer_def)
qed

lemma socket_onclose_waiter_calls:
  "filter is_waiter_call (snd (socket_onclose s code j)) = failPending (pendingRequests s)"
  by (simp add: socket_onclose_def Let_def split_def)

lemma close_events: "snd (close s) = (if socket s = None then [] else [SocketCloseCall])"
  by (simp add: close_def ws_close_def split: option.splits ready_state.splits)

lemma close_socket:
  "socket (fst (close s))
     = (if socket s = Some CONNECTING \<or> socket s = Some OPEN then Some CLOSING else socket s)"
  by (simp add: close_def ws_close_def split: option.splits ready_state.splits)

lemma ex_pending_owned: "timers_owned ex_pending"
  unfolding ex_pending_def ex_new_def by (rule run_owned) (rule new_ObservableSocket_owned)

text \<open>
  C2, as the code has it: \<open>close()\<close> sets \<open>manuallyClosed\<close>, stops the heartbeat timers
  and the sweep timer and asks the transport to close (\<open>socket.close()\<close> is called
  whenever the session has a transport, and a transport that is connecting or open
  becomes closing); it calls no handler and leaves \<open>pendingRequests\<close> as it is. The
  waiters are failed by the handler of the transport's close event: it calls the handler
  of every pending entry, in order, with \<open>{message: null, success: false}\<close>, empties
  \<open>pendingRequests\<close> and leaves the heartbeat and sweep timers stopped.
\<close>

theorem close_stops_timers_onclose_fails_waiters:
  assumes "timers_owned s"
  shows "manuallyClosed (fst (close s))
       \<and> timers_stopped (fst (close s))
       \<and> snd (close s) = (if socket s = None then [] else [SocketCloseCall])
       \<and> socket (fst (close s))
            = (if socket s = Some CONNECTING \<or> socket s = Some OPEN then Some CLOSING else socket s)
       \<and> pendingRequests (fst (close s)) = pendingRequests s
       \<and> filter is_waiter_call (snd (close s)) = []
       \<and> pendingRequests (fst (socket_onclose s code jitter)) = []
       \<and> filter is_waiter_call (snd (socket_onclose s code jitter)) = failPending (pendingRequests s)
       \<and> timers_stopped (fst (socket_onclose s code jitter))"
proof -
  have "manuallyClosed (fst (close s))" and "pendingRequests (fst (close s)) = pendingRequests s"
    and "filter is_waiter_call (snd (close s)) = []"
    by (simp_all add: close_def)
  then show ?thesis
    using close_stopped[OF assms] socket_onclose_stopped[OF assms, of code jitter]
      close_events[of s] close_socket[of s] socket_onclose_waiter_calls[of s code jitter]
      socket_onclose_pending[of s code jitter]
    by (simp only: simp_thms)
qed

theorem close_stops_timers_onclose_fails_waiters_witness:
  "timers_owned ex_pending
   \<and> timers_stopped (fst (close ex_pending))
   \<and> snd (close ex_pending) = [SocketCloseCall]
   \<and> socket (fst (close ex_pending)) = Some CLOSING
   \<and> pendingRequests (fst (close ex_pending)) = [(''u1'', \<lparr>onMessage = 7, expire = Some 30000\<rparr>)]
   \<and> filter is_waiter_call (snd (socket_onclose (fst (close ex_pending)) 1000 0))
       = [WaiterCallback 7 (Response None False)]"
proof -
  have o: "timers_owned ex_pending" by (rule ex_pending_owned)
  have o2: "timers_owned (fst (close ex_pending))" using o by (rule close_owned)
  from close_stops_timers_onclose_fails_waiters[OF o, of 1000 0]
    close_stops_timers_onclose_fails_waiters[OF o2, of 1000 0]
  show ?thesis using o by (simp add: ex_pending_eval failPending_def)
qed

text \<open>
  C2 as the specification states it does not hold of the code: after \<open>close()\<close> on a
  session with one request pending, the request is still pending and no handler has been
  called.
\<close>

theorem close_leaves_waiters_pending:
  "pendingRequests (fst (close ex_pending)) = [(''u1'', \<lparr>onMessage = 7, expire = Some 30000\<rparr>)]
   \<and> snd (close ex_pending) = [SocketCloseCall]"
  by (simp add: close_def ws_close_def ex_pending_eval)

text \<open>
  C3 at a failing input. The transport opens and is lost (close code 1006), so a
  reconnect is scheduled; the caller then calls \<open>close()\<close>, which sets \<open>manuallyClosed\<close>
  but leaves the reconnect timer; when the timer fires a new transport is opened and
  \<open>manuallyClosed\<close> is cleared again.
\<close>

theorem close_does_not_cancel_scheduled_reconnect:
  "manuallyClosed (fst (run ex_new [SocketOpen, SocketClose 1006 0, Close]))
   \<and> timers (fst (run ex_new [SocketOpen, SocketClose 1006 0, Close])) = [(2, Reconnect)]
   \<and> snd (step (fst (run ex_new [SocketOpen, SocketClose 1006 0, Close])) (TimerFire 2 0 []))
       = [NewWebSocket ''wss://example.com/ws/app/'']
   \<and> socket (fst (step (fst (run ex_new [SocketOpen, SocketClose 1006 0, Close])) (TimerFire 2 0 [])))
       = Some CONNECTING
   \<and> \<not> manuallyClosed (fst (step (fst (run ex_new [SocketOpen, SocketClose 1006 0, Close])) (TimerFire 2 0 [])))"
  by (simp add: ex_new_eq eval_defs)

subsection \<open>Reconnecting\<close>

lemma attempts_frame [simp]:
  "reconnectAttempts (clearTimer t s) = reconnectAttempts s"
  "maxReconnectAttempts (clearTimer t s) = maxReconnectAttempts s"
  "reconnectAttempts (snd (setTimer k s)) = reconnectAttempts s"
  "maxReconnectAttempts (snd (setTimer k s)) = maxReconnectAttempts s"
  "reconnectAttempts (stopQueManager s) = reconnectAttempts s"
  "maxReconnectAttempts (stopQueManager s) = maxReconnectAttempts s"
  "reconnectAttempts (stopHeartbeat s) = reconnectAttempts s"
  "maxReconnectAttempts (stopHeartbeat s) = maxReconnectAttempts s"
  "reconnectAttempts (fst (ws_close s)) = reconnectAttempts s"
  "maxReconnectAttempts (fst (ws_close s)) = maxReconnectAttempts s"
  by (simp_all add: clearTimer_def setTimer_def stopQueManager_def stopHeartbeat_def ws_close_def Let_def
      split: option.splits ready_state.splits)

lemma socket_onclose_attempts [simp]:
  "reconnectAttempts (fst (socket_onclose s code j)) = reconnectAttempts s"
  "maxReconnectAttempts (fst (socket_onclose s code j)) = maxReconnectAttempts s"
  by (simp_all add: socket_onclose_def Let_def split_def)

lemma socket_onclose_schedules:
  "SetReconnectTimeout d \<in> set (snd (socket_onclose s code j)) \<Longrightarrow>
   int (reconnectAttempts s) < maxReconnectAttempts s \<and> \<not> manuallyClosed s
   \<and> code \<notin> {1008, 1011} \<and> d = reconnect_delay (reconnectAttempts s) j"
  by (auto simp: socket_onclose_def Let_def split_def failPending_def notifyConnectionChange_def
      split: option.splits if_splits)

lemma socket_onmessage_attempts:
  assumes "socket_onmessage s p = Inr (s', evs)"
  shows "reconnectAttempts s' = reconnectAttempts s \<and> maxReconnectAttempts s' = maxReconnectAttempts s
       \<and> SetReconnectTimeout d \<notin> set evs"
  using assms
  by (auto simp: socket_onmessage_def onmessage_try_def Let_def
      split: sum.splits option.splits if_splits json.splits)

lemma heartbeatFire_attempts:
  assumes "heartbeatFire s f = Inr (s', evs)"
  shows "reconnectAttempts s' = reconnectAttempts s \<and> maxReconnectAttempts s' = maxReconnectAttempts s
       \<and> SetReconnectTimeout d \<notin> set evs"
  using assms
  by (cases "socket s = Some OPEN")
     (auto simp: heartbeatFire_def sendMessage_open Let_def split_def split: option.splits)

lemma timerFire_attempts:
  "reconnectAttempts s \<le> reconnectAttempts (fst (timerFire s t now f))
   \<and> maxReconnectAttempts (fst (timerFire s t now f)) = maxReconnectAttempts s
   \<and> SetReconnectTimeout d \<notin> set (snd (timerFire s t now f))"
proof (cases "map_of (timers s) t")
  case None
  then show ?thesis by (simp add: timerFire_def)
next
  case (Some k)
  show ?thesis
  proof (cases k)
    case HeartbeatTick
    obtain s' evs where r: "heartbeatFire s f = Inr (s', evs)"
      using heartbeatFire_total[of s f] by (cases "heartbeatFire s f") auto
    then show ?thesis using Some HeartbeatTick heartbeatFire_attempts[OF r, of d]
      by (simp add: timerFire_def uncaught_def)
  next
    case HeartbeatTimeout
    then show ?thesis using Some
      by (simp add: timerFire_def heartbeatTimeoutFire_def split_def Let_def)
         (simp add: ws_close_def split: option.splits ready_state.splits)
  next
    case QueManagerTick
    then show ?thesis using Some
      by (auto simp: timerFire_def queManagerFire_def failPending_def)
  next
    case Reconnect
    then show ?thesis using Some
      by (simp add: timerFire_def reconnectFire_def connect_def)
  qed
qed

lemma step_attempts:
  assumes "i \<noteq> SocketOpen"
  shows "reconnectAttempts s \<le> reconnectAttempts (fst (step s i))
       \<and> maxReconnectAttempts (fst (step s i)) = maxReconnectAttempts s
       \<and> (SetReconnectTimeout d \<in> set (snd (step s i)) \<longrightarrow> int (reconnectAttempts s) < maxReconnectAttempts s)"
proof (cases i)
  case SocketOpen
  then show ?thesis using assms by simp
next
  case (SocketMessage p)
  obtain s' evs where r: "socket_onmessage s p = Inr (s', evs)"
    using socket_onmessage_total[of s p] by (cases "socket_onmessage s p") auto
  then show ?thesis using SocketMessage socket_onmessage_attempts[OF r, of d]
    by (simp add: uncaught_def)
next
  case SocketError
  then show ?thesis by (simp add: socket_onerror_def)
next
  case (SocketClose code j)
  then show ?thesis
    using socket_onclose_schedules[of d "s\<lparr>socket := Some CLOSED\<rparr>" code j] by auto
next
  case (TimerFire t now f)
  then show ?thesis using timerFire_attempts[of s t now f d] by simp
next
  case (SendMessage m)
  then show ?thesis
    by (cases "socket s = Some OPEN") (simp_all add: sendMessage_open sendMessage_not_open)
next
  case (OnResponse m cb now)
  then show ?thesis by (simp add: onResponse_eq Let_def)
next
  case (SendAndWait m cb now)
  then show ?thesis by (simp add: sendAndWait_def onResponse_eq Let_def)
next
  case Close
  then show ?thesis
    by (simp add: close_def) (simp add: ws_close_def split: option.splits ready_state.splits)
qed

lemma run_exhausted:
  "maxReconnectAttempts s \<le> int (reconnectAttempts s) \<Longrightarrow> SocketOpen \<notin> set is \<Longrightarrow>
   SetReconnectTimeout d \<notin> set (snd (run s is))"
proof (induction "is" arbitrary: s)
  case Nil
  then show ?case by simp
next
  case (Cons i "is")
  from Cons.prems have ne: "i \<noteq> SocketOpen" and rest: "SocketOpen \<notin> set is" by auto
  note st = step_attempts[OF ne, of s d]
  have ex: "maxReconnectAttempts (fst (step s i)) \<le> int (reconnectAttempts (fst (step s i)))"
    using st Cons.prems(1) by linarith
  have "SetReconnectTimeout d \<notin> set (snd (step s i))" using st Cons.prems(1) by auto
  then show ?case using Cons.IH[OF ex rest] by (simp add: split_def Let_def)
qed

lemma reconnect_backoff_mono: "a \<le> b \<Longrightarrow> reconnect_backoff a \<le> reconnect_backoff b"
  by (simp add: reconnect_backoff_def min_le_iff_disj)

lemma reconnect_backoff_below_cap:
  assumes "a < b" "reconnect_backoff a < 15000"
  shows "reconnect_backoff a + 1000 \<le> reconnect_backoff b"
proof -
  have a: "reconnect_backoff a = 1000 * 2 ^ a" and lt: "(1000::nat) * 2 ^ a < 15000"
    using assms(2) by (simp_all add: reconnect_backoff_def min_def split: if_splits)
  have "(2::nat) ^ Suc a \<le> 2 ^ b" using assms(1) by (intro power_increasing) simp_all
  then have "(1000::nat) * 2 ^ a * 2 \<le> 1000 * 2 ^ b" by simp
  moreover have "(1000::nat) \<le> 1000 * 2 ^ a" by simp
  ultimately have "1000 * 2 ^ a + 1000 \<le> (1000::nat) * 2 ^ b" by linarith
  then show ?thesis using lt by (simp add: a reconnect_backoff_def)
qed

text \<open>
  C5. The backoff \<open>min(15000, 1000 * 2 ^ attempts)\<close> never decreases from one attempt to
  the next and never exceeds the cap of 15000; below the cap the whole delay, jitter in
  \<open>[0, 300)\<close> included, grows strictly from an attempt to any later one. The close handler
  schedules a reconnect only while \<open>reconnectAttempts < maxReconnectAttempts\<close>, with the
  delay computed from \<open>reconnectAttempts\<close>; once the counter has reached the maximum, no
  execution without a successful open schedules a reconnect again.
\<close>

theorem reconnect_delay_monotone_and_bounded_attempts:
  "(a \<le> b \<longrightarrow> reconnect_backoff a \<le> reconnect_backoff b)
   \<and> reconnect_backoff a \<le> 15000
   \<and> (a < b \<and> reconnect_backoff a < 15000 \<and> 0 \<le> j1 \<and> j1 < 300 \<and> 0 \<le> j2 \<and> j2 < 300 \<longrightarrow>
        reconnect_delay a j1 < reconnect_delay b j2)
   \<and> (SetReconnectTimeout d \<in> set (snd (socket_onclose s code jitter)) \<longrightarrow>
        int (reconnectAttempts s) < maxReconnectAttempts s
        \<and> d = reconnect_delay (reconnectAttempts s) jitter)
   \<and> (maxReconnectAttempts s \<le> int (reconnectAttempts s) \<and> SocketOpen \<notin> set inputs \<longrightarrow>
        (\<forall>d'. SetReconnectTimeout d' \<notin> set (snd (run s inputs))))"
proof -
  have 3: "reconnect_delay a j1 < reconnect_delay b j2"
    if "a < b \<and> reconnect_backoff a < 15000 \<and> 0 \<le> j1 \<and> j1 < 300 \<and> 0 \<le> j2 \<and> j2 < 300"
  proof -
    from that reconnect_backoff_below_cap[of a b]
    have "real (reconnect_backoff a) + 1000 \<le> real (reconnect_backoff b)"
      by (metis of_nat_add of_nat_le_iff of_nat_numeral)
    then show ?thesis using that by (simp add: reconnect_delay_def)
  qed
  show ?thesis
    using reconnect_backoff_mono[of a b] 3 socket_onclose_schedules[of d s code jitter]
      run_exhausted[of s inputs]
    by (auto simp: reconnect_backoff_def)
qed

lemma ex_exhausted_eval:
  "reconnectAttempts ex_exhausted = 5" "maxReconnectAttempts ex_exhausted = 5"
  "socket ex_exhausted = Some CONNECTING"
  by (simp_all add: ex_exhausted_def ex_new_eq eval_defs)

theorem reconnect_delay_monotone_and_bounded_attempts_witness:
  "(3::nat) \<le> 4 \<and> reconnect_backoff 3 \<le> reconnect_backoff 4
   \<and> reconnect_backoff 3 < 15000 \<and> reconnect_delay 3 299 < reconnect_delay 4 0
   \<and> SetReconnectTimeout 1012 \<in> set (snd (socket_onclose ex_new 1006 12))
   \<and> int (reconnectAttempts ex_new) < maxReconnectAttempts ex_new
   \<and> maxReconnectAttempts ex_exhausted \<le> int (reconnectAttempts ex_exhausted)
   \<and> SocketOpen \<notin> set [SocketClose 1006 12, Close]
   \<and> SetReconnectTimeout 15012 \<notin> set (snd (run ex_exhausted [SocketClose 1006 12, Close]))"
proof -
  have b: "reconnect_backoff 3 < 15000" by (simp add: reconnect_backoff_def)
  have e: "maxReconnectAttempts ex_exhausted \<le> int (reconnectAttempts ex_exhausted)"
    by (simp add: ex_exhausted_eval)
  have c: "SetReconnectTimeout 1012 \<in> set (snd (socket_onclose ex_new 1006 12))"
    by (simp add: ex_new_eq eval_defs)
  from reconnect_delay_monotone_and_bounded_attempts
         [of 3 4 299 0 15012 ex_exhausted 1006 12 "[SocketClose 1006 12, Close]"] b e
       reconnect_delay_monotone_and_bounded_attempts
         [of 0 1 0 0 1012 ex_new 1006 12 "[]"] c
  show ?thesis by simp
qed

subsection \<open>Resolution of a correlated send\<close>

lemma get_prop_not_null: "msg \<noteq> JNull \<Longrightarrow> \<exists>r. get_prop msg k = Inr r"
  by (cases msg) (simp_all add: get_prop_def)

lemma socket_onmessage_cases:
  "socket_onmessage s None = Inr (s, [ConsoleError ''Invalid WebSocket message:''])"
  "socket_onmessage s (Some JNull) = Inr (s, [ConsoleError ''Invalid WebSocket message:''])"
  "msg \<noteq> JNull \<Longrightarrow> get_prop msg ''route'' = Inr (Some (JString ''PONG'')) \<Longrightarrow>
     socket_onmessage s (Some msg)
       = Inr ((case heartbeatTimeout s of Some t \<Rightarrow> clearTimer t s | None \<Rightarrow> s), [])"
  "correlates msg = None \<Longrightarrow> msg \<noteq> JNull \<Longrightarrow> get_prop msg ''route'' \<noteq> Inr (Some (JString ''PONG'')) \<Longrightarrow>
     socket_onmessage s (Some msg)
       = Inr (s, (case onMessageReceived s of None \<Rightarrow> []
                  | Some cb \<Rightarrow> [PushCallback cb (Response (Some msg) True)]))"
  "correlates msg = Some u \<Longrightarrow> Map_get (pendingRequests s) u = None \<Longrightarrow>
     socket_onmessage s (Some msg)
       = Inr (s, (case onMessageReceived s of None \<Rightarrow> []
                  | Some cb \<Rightarrow> [PushCallback cb (Response (Some msg) True)]))"
  "correlates msg = Some u \<Longrightarrow> Map_get (pendingRequests s) u = Some q \<Longrightarrow>
     socket_onmessage s (Some msg)
       = Inr (s\<lparr>pendingRequests := Map_delete u (pendingRequests s)\<rparr>,
              (case onMessageReceived s of None \<Rightarrow> []
               | Some cb \<Rightarrow> [PushCallback cb (Response (Some msg) True)])
              @ [WaiterCallback (onMessage q) (Response (Some msg) True)])"
proof -
  show "socket_onmessage s None = Inr (s, [ConsoleError ''Invalid WebSocket message:''])"
    by (simp add: socket_onmessage_def onmessage_try_def)
  show "socket_onmessage s (Some JNull) = Inr (s, [ConsoleError ''Invalid WebSocket message:''])"
    by (simp add: socket_onmessage_def onmessage_try_def get_prop_def)
  show "socket_onmessage s (Some msg)
       = Inr ((case heartbeatTimeout s of Some t \<Rightarrow> clearTimer t s | None \<Rightarrow> s), [])"
    if "msg \<noteq> JNull" "get_prop msg ''route'' = Inr (Some (JString ''PONG''))"
    using that by (simp add: socket_onmessage_def onmessage_try_def)
  show "socket_onmessage s (Some msg)
       = Inr (s, (case onMessageReceived s of None \<Rightarrow> []
                  | Some cb \<Rightarrow> [PushCallback cb (Response (Some msg) True)]))"
    if c: "correlates msg = None" and n: "msg \<noteq> JNull"
      and r: "get_prop msg ''route'' \<noteq> Inr (Some (JString ''PONG''))"
  proof -
    obtain rt where rt: "get_prop msg ''route'' = Inr rt" using get_prop_not_null[OF n] by blast
    obtain uu where uu: "get_prop msg ''uuid'' = Inr uu" using get_prop_not_null[OF n] by blast
    have "\<And>u. uu \<noteq> Some (JString u)" using c n r uu by (auto simp: correlates_def)
    then show ?thesis using rt r uu
      by (simp add: socket_onmessage_def onmessage_try_def Let_def split: option.splits json.splits)
  qed
  show "socket_onmessage s (Some msg)
       = Inr (s, (case onMessageReceived s of None \<Rightarrow> []
                  | Some cb \<Rightarrow> [PushCallback cb (Response (Some msg) True)]))"
    if c: "correlates msg = Some u" and g: "Map_get (pendingRequests s) u = None"
  proof -
    have n: "msg \<noteq> JNull" and r: "get_prop msg ''route'' \<noteq> Inr (Some (JString ''PONG''))"
      using c by (auto simp: correlates_def split: if_splits)
    obtain rt where rt: "get_prop msg ''route'' = Inr rt" using get_prop_not_null[OF n] by blast
    have uu: "get_prop msg ''uuid'' = Inr (Some (JString u))"
      using c n r by (auto simp: correlates_def split: sum.splits option.splits json.splits)
    show ?thesis using rt r uu g
      by (simp add: socket_onmessage_def onmessage_try_def Let_def)
  qed
  show "socket_onmessage s (Some msg)
       = Inr (s\<lparr>pendingRequests := Map_delete u (pendingRequests s)\<rparr>,
              (case onMessageReceived s of None \<Rightarrow> []
               | Some cb \<Rightarrow> [PushCallback cb (Response (Some msg) True)])
              @ [WaiterCallback (onMessage q) (Response (Some msg) True)])"
    if c: "correlates msg = Some u" and g: "Map_get (pendingRequests s) u = Some q"
  proof -
    have n: "msg \<noteq> JNull" and r: "get_prop msg ''route'' \<noteq> Inr (Some (JString ''PONG''))"
      using c by (auto simp: correlates_def split: if_splits)
    obtain rt where rt: "get_prop msg ''route'' = Inr rt" using get_prop_not_null[OF n] by blast
    have uu: "get_prop msg ''uuid'' = Inr (Some (JString u))"
      using c n r by (auto simp: correlates_def split: sum.splits option.splits json.splits)
    show ?thesis using rt r uu g
      by (simp add: socket_onmessage_def onmessage_try_def Let_def)
  qed
qed

lemma correlates_PONG:
  "get_prop msg ''route'' = Inr (Some (JString ''PONG'')) \<Longrightarrow> correlates msg = None"
  by (simp add: correlates_def)

lemma waiter_calls_push [simp]:
  "filter is_waiter_call (case cbo of None \<Rightarrow> [] | Some cb \<Rightarrow> [PushCallback cb r]) = []"
  by (cases cbo) simp_all

lemma onmessage_table:
  "socket_onmessage s p = Inr (s', evs) \<Longrightarrow> socket s = Some OPEN \<Longrightarrow>
   (pendingRequests s', filter is_waiter_call evs) = table_step s (SocketMessage p)"
proof (cases p)
  case None
  then show "socket_onmessage s p = Inr (s', evs) \<Longrightarrow> ?thesis"
    by (auto simp: socket_onmessage_cases)
next
  case (Some msg)
  assume r: "socket_onmessage s p = Inr (s', evs)" and op: "socket s = Some OPEN"
  show ?thesis
  proof (cases "msg = JNull")
    case True
    then show ?thesis using r Some op by (auto simp: socket_onmessage_cases correlates_def)
  next
    case n: False
    show ?thesis
    proof (cases "get_prop msg ''route'' = Inr (Some (JString ''PONG''))")
      case True
      then show ?thesis using r Some op n
        by (auto simp: socket_onmessage_cases(3) correlates_PONG split: option.splits)
    next
      case rt: False
      show ?thesis
      proof (cases "correlates msg")
        case None
        then show ?thesis using r Some op socket_onmessage_cases(4)[OF None n rt, of s] by auto
      next
        case (Some u)
        show ?thesis
        proof (cases "Map_get (pendingRequests s) u")
          case None
          then show ?thesis using r \<open>p = Some msg\<close> op \<open>correlates msg = Some u\<close>
              socket_onmessage_cases(5)[OF \<open>correlates msg = Some u\<close> None] by auto
        next
          case (Some q)
          then show ?thesis using r \<open>p = Some msg\<close> op \<open>correlates msg = Some u\<close>
              socket_onmessage_cases(6)[OF \<open>correlates msg = Some u\<close> Some] by auto
        qed
      qed
    qed
  qed
qed

lemma pendingRequests_starts [simp]:
  "pendingRequests (snd (setTimer k s)) = pendingRequests s"
  "pendingRequests (startHeartbeat s) = pendingRequests s"
  "pendingRequests (startQueManager s) = pendingRequests s"
  by (simp_all add: setTimer_def startHeartbeat_def startQueManager_def Let_def split: option.splits)

lemma waiter_calls_append_single [simp]:
  "filter is_waiter_call (case cbo of None \<Rightarrow> [] | Some cb \<Rightarrow> [ConnectionChange cb n b]) = []"
  by (cases cbo) simp_all

lemma heartbeatFire_table:
  "heartbeatFire s f = Inr (s', evs) \<Longrightarrow> pendingRequests s' = pendingRequests s \<and> filter is_waiter_call evs = []"
  by (cases "socket s = Some OPEN")
     (auto simp: heartbeatFire_def sendMessage_open Let_def split_def split: option.splits)

lemma timerFire_table:
  "(pendingRequests (fst (timerFire s t now f)), filter is_waiter_call (snd (timerFire s t now f)))
     = table_step s (TimerFire t now f)"
proof (cases "map_of (timers s) t")
  case None
  then show ?thesis by (simp add: timerFire_def)
next
  case (Some k)
  show ?thesis
  proof (cases k)
    case HeartbeatTick
    obtain s' evs where r: "heartbeatFire s f = Inr (s', evs)"
      using heartbeatFire_total[of s f] by (cases "heartbeatFire s f") auto
    then show ?thesis using Some HeartbeatTick heartbeatFire_table[OF r]
      by (simp add: timerFire_def uncaught_def)
  next
    case HeartbeatTimeout
    then show ?thesis using Some
      by (simp add: timerFire_def heartbeatTimeoutFire_def split_def Let_def)
  next
    case QueManagerTick
    then show ?thesis using Some
      by (simp add: timerFire_def queManagerFire_def)
  next
    case Reconnect
    then show ?thesis using Some
      by (simp add: timerFire_def reconnectFire_def connect_def)
  qed
qed

lemma step_table:
  "(pendingRequests (fst (step s i)), filter is_waiter_call (snd (step s i))) = table_step s i"
proof (cases i)
  case SocketOpen
  then show ?thesis
    by (simp add: socket_onopen_def Let_def notifyConnectionChange_def)
next
  case (SocketMessage p)
  show ?thesis
  proof (cases "socket s = Some OPEN")
    case True
    obtain s' evs where r: "socket_onmessage s p = Inr (s', evs)"
      using socket_onmessage_total[of s p] by (cases "socket_onmessage s p") auto
    from onmessage_table[OF r True] show ?thesis using SocketMessage True r
      by (simp add: uncaught_def)
  next
    case False
    then show ?thesis using SocketMessage by (simp split: option.splits)
  qed
next
  case SocketError
  then show ?thesis by (simp add: socket_onerror_def)
next
  case (SocketClose code j)
  then show ?thesis by (simp add: socket_onclose_waiter_calls)
next
  case (TimerFire t now f)
  then show ?thesis using timerFire_table[of s t now f] by simp
next
  case (SendMessage m)
  then show ?thesis
    by (cases "socket s = Some OPEN") (simp_all add: sendMessage_open sendMessage_not_open)
next
  case (OnResponse m cb now)
  then show ?thesis by (simp add: onResponse_eq Let_def)
next
  case (SendAndWait m cb now)
  then show ?thesis by (simp add: sendAndWait_def onResponse_eq Let_def)
next
  case Close
  then show ?thesis by (simp add: close_def)
qed

lemma is_call_waiter: "filter (is_call h) (filter is_waiter_call evs) = filter (is_call h) evs"
proof -
  have "is_call h e \<Longrightarrow> is_waiter_call e" for e by (cases e) simp_all
  then show ?thesis by (induction evs) auto
qed

lemma step_calls: "filter (is_call h) (snd (step s i)) = filter (is_call h) (snd (table_step s i))"
  using step_table[of s i] is_call_waiter[of h "snd (step s i)"] by (metis snd_conv)

lemma step_pending: "pendingRequests (fst (step s i)) = fst (table_step s i)"
  using step_table[of s i] by (metis fst_conv)

lemma failPending_calls:
  "filter (is_call h) (failPending ps)
     = map (\<lambda>e. WaiterCallback h (Response None False)) (filter (\<lambda>e. onMessage (snd e) = h) ps)"
  by (induction ps) (simp_all add: failPending_def)

lemma absent_filter: "absent ps h \<Longrightarrow> filter (\<lambda>e. onMessage (snd e) = h) ps = []"
  by (simp add: absent_def filter_empty_conv)

lemma only_at_filter: "only_at ps u h q \<Longrightarrow> filter (\<lambda>e. onMessage (snd e) = h) ps = [(u, q)]"
proof (induction ps)
  case Nil
  then show ?case by (simp add: only_at_def)
next
  case (Cons e ps)
  obtain k v where e: "e = (k, v)" by (cases e)
  from Cons.prems have d: "distinct (map fst ps)" and nk: "k \<notin> fst ` set ps"
    and m: "map_of ((k, v) # ps) u = Some q" and hq: "onMessage q = h"
    and only: "\<forall>x\<in>set ((k, v) # ps). onMessage (snd x) = h \<longrightarrow> fst x = u"
    by (simp_all add: only_at_def e)
  show ?case
  proof (cases "k = u")
    case True
    then have v: "v = q" using m by simp
    have "onMessage (snd x) \<noteq> h" if "x \<in> set ps" for x
    proof
      assume "onMessage (snd x) = h"
      then have "fst x = u" using only that by simp
      then show False using nk True that by (metis image_eqI)
    qed
    then have "filter (\<lambda>x. onMessage (snd x) = h) ps = []" by (simp add: filter_empty_conv)
    then show ?thesis using True v hq by (simp add: e)
  next
    case False
    then have "onMessage v \<noteq> h" using only by auto
    moreover have "only_at ps u h q" using False d m hq only by (simp add: only_at_def)
    ultimately show ?thesis using Cons.IH by (simp add: e)
  qed
qed

lemma only_at_mem: "only_at ps u h q \<Longrightarrow> (u, q) \<in> set ps"
  by (simp add: only_at_def map_of_SomeD)

lemma distinct_filter_fst: "distinct (map fst ps) \<Longrightarrow> distinct (map fst (filter P ps))"
  by (induction ps) auto

lemma map_of_filter_keep:
  "distinct (map fst ps) \<Longrightarrow> map_of ps u = Some q \<Longrightarrow> P (u, q) \<Longrightarrow> map_of (filter P ps) u = Some q"
  by (induction ps) (auto split: if_splits simp: rev_image_eqI dest: map_of_SomeD)

lemma absent_sub: "absent ps h \<Longrightarrow> absent (filter P ps) h"
  by (simp add: absent_def distinct_filter_fst)

lemma only_at_keep: "only_at ps u h q \<Longrightarrow> P (u, q) \<Longrightarrow> only_at (filter P ps) u h q"
  by (simp add: only_at_def distinct_filter_fst map_of_filter_keep)

lemma only_at_drop: "only_at ps u h q \<Longrightarrow> \<not> P (u, q) \<Longrightarrow> absent (filter P ps) h"
proof -
  assume o: "only_at ps u h q" and np: "\<not> P (u, q)"
  have "onMessage (snd e) \<noteq> h" if "e \<in> set ps" "P e" for e
  proof
    assume "onMessage (snd e) = h"
    then have "fst e = u" using o that(1) by (simp add: only_at_def)
    moreover have "map_of ps (fst e) = Some (snd e)"
      using o that(1) by (simp add: only_at_def)
    ultimately have "e = (u, q)" using o by (cases e) (simp add: only_at_def)
    then show False using np that(2) by simp
  qed
  then show ?thesis using o by (simp add: absent_def only_at_def distinct_filter_fst)
qed

lemma set_Map_set: "set (Map_set k v xs) \<subseteq> insert (k, v) (set xs)"
proof (induction xs)
  case Nil
  then show ?case by simp
next
  case (Cons e xs)
  obtain k' v' where e: "e = (k', v')" by (cases e)
  show ?case
  proof (cases "k' = k")
    case True
    then show ?thesis by (auto simp: e)
  next
    case False
    then show ?thesis using Cons.IH by (auto simp: e)
  qed
qed

lemma absent_Map_set: "absent ps h \<Longrightarrow> onMessage q \<noteq> h \<Longrightarrow> absent (Map_set k q ps) h"
proof -
  assume a: "absent ps h" and q: "onMessage q \<noteq> h"
  have "set (Map_set k q ps) \<subseteq> insert (k, q) (set ps)" by (rule set_Map_set)
  then show ?thesis using a q by (auto simp: absent_def distinct_Map_set)
qed

lemma only_at_Map_set_other:
  "only_at ps u h q \<Longrightarrow> k \<noteq> u \<Longrightarrow> onMessage q' \<noteq> h \<Longrightarrow> only_at (Map_set k q' ps) u h q"
proof -
  assume o: "only_at ps u h q" and k: "k \<noteq> u" and q: "onMessage q' \<noteq> h"
  have sub: "set (Map_set k q' ps) \<subseteq> insert (k, q') (set ps)" by (rule set_Map_set)
  show ?thesis using o k q sub
    by (auto simp: only_at_def distinct_Map_set map_of_Map_set)
qed

lemma only_at_Map_set_new:
  "absent ps h \<Longrightarrow> onMessage q = h \<Longrightarrow> only_at (Map_set u q ps) u h q"
proof -
  assume a: "absent ps h" and q: "onMessage q = h"
  have sub: "set (Map_set u q ps) \<subseteq> insert (u, q) (set ps)" by (rule set_Map_set)
  show ?thesis using a q sub
    by (auto simp: only_at_def absent_def distinct_Map_set map_of_Map_set)
qed

lemma Map_delete_filter: "Map_delete k ps = filter (\<lambda>e. fst e \<noteq> k) ps"
  by (simp add: Map_delete_def)

lemma table_step_absent:
  assumes a: "absent (pendingRequests s) h" and nr: "\<not> registers h i"
  shows "absent (fst (table_step s i)) h \<and> filter (is_call h) (snd (table_step s i)) = []"
proof (cases i)
  case (SocketMessage p)
  show ?thesis
  proof (cases "\<exists>msg u q. p = Some msg \<and> socket s = Some OPEN \<and> correlates msg = Some u
                  \<and> Map_get (pendingRequests s) u = Some q")
    case True
    then obtain msg u q where p: "p = Some msg" "socket s = Some OPEN" "correlates msg = Some u"
      "Map_get (pendingRequests s) u = Some q" by blast
    have "(u, q) \<in> set (pendingRequests s)" using p(4) by (rule Map_get_mem)
    then have "onMessage q \<noteq> h" using a by (auto simp: absent_def)
    then show ?thesis using SocketMessage p a by (simp add: Map_delete_filter absent_sub)
  next
    case False
    then have "table_step s i = (pendingRequests s, [])"
      using SocketMessage by (auto split: option.splits)
    then show ?thesis using a by simp
  qed
next
  case (SocketClose code j)
  then show ?thesis using a absent_filter[OF a]
    by (simp add: failPending_calls) (simp add: absent_def)
next
  case (TimerFire t now f)
  have "filter (is_call h) (failPending (filter (\<lambda>e. expired now (snd e)) (pendingRequests s))) = []"
    using absent_filter[OF absent_sub[OF a, of "\<lambda>e. expired now (snd e)"]]
    by (simp add: failPending_calls)
  then show ?thesis using TimerFire a by (simp add: absent_sub)
next
  case (OnResponse m cb now)
  then show ?thesis using a nr by (simp add: absent_Map_set)
next
  case (SendAndWait m cb now)
  then show ?thesis using a nr by (simp add: absent_Map_set)
qed (use a in simp_all)

lemma filter_swap: "filter P (filter Q xs) = filter Q (filter P xs)"
  by (induction xs) simp_all

lemma only_at_message:
  assumes o: "only_at (pendingRequests s) u h q"
  shows "case resolves s u (SocketMessage p) of
           Some r \<Rightarrow> absent (fst (table_step s (SocketMessage p))) h
                     \<and> filter (is_call h) (snd (table_step s (SocketMessage p))) = [WaiterCallback h r]
         | None \<Rightarrow> only_at (fst (table_step s (SocketMessage p))) u h q
                     \<and> filter (is_call h) (snd (table_step s (SocketMessage p))) = []"
proof -
  have g: "Map_get (pendingRequests s) u = Some q" and hq: "onMessage q = h"
    using o by (simp_all add: only_at_def Map_get_def)
  show ?thesis
  proof (cases "\<exists>msg u'. p = Some msg \<and> socket s = Some OPEN \<and> correlates msg = Some u'")
    case True
    then obtain msg u' where p: "p = Some msg" "socket s = Some OPEN" "correlates msg = Some u'"
      by blast
    show ?thesis
    proof (cases "u' = u")
      case True
      have "absent (Map_delete u (pendingRequests s)) h"
        unfolding Map_delete_filter using o by (rule only_at_drop) simp
      then show ?thesis using p True g hq by simp
    next
      case False
      show ?thesis
      proof (cases "Map_get (pendingRequests s) u'")
        case None
        then show ?thesis using p False o by simp
      next
        case (Some q')
        have "(u', q') \<in> set (pendingRequests s)" using Some by (rule Map_get_mem)
        then have nh: "onMessage q' \<noteq> h" using o False by (auto simp: only_at_def)
        have "only_at (Map_delete u' (pendingRequests s)) u h q"
          unfolding Map_delete_filter using o by (rule only_at_keep) (use False in simp)
        then show ?thesis using p False Some nh by simp
      qed
    qed
  next
    case False
    have 1: "table_step s (SocketMessage p) = (pendingRequests s, [])"
    proof (cases p)
      case None then show ?thesis by simp
    next
      case (Some msg)
      then show ?thesis using False by (cases "correlates msg") simp_all
    qed
    have 2: "resolves s u (SocketMessage p) = None"
    proof (cases p)
      case None then show ?thesis by simp
    next
      case (Some msg)
      then show ?thesis using False by simp
    qed
    show ?thesis using o by (simp only: 1 2 option.case fst_conv snd_conv filter.simps simp_thms)
  qed
qed

lemma only_at_close:
  assumes o: "only_at (pendingRequests s) u h q"
  shows "case resolves s u (SocketClose code j) of
           Some r \<Rightarrow> absent (fst (table_step s (SocketClose code j))) h
                     \<and> filter (is_call h) (snd (table_step s (SocketClose code j))) = [WaiterCallback h r]
         | None \<Rightarrow> only_at (fst (table_step s (SocketClose code j))) u h q
                     \<and> filter (is_call h) (snd (table_step s (SocketClose code j))) = []"
proof (cases "socket s \<in> {None, Some CLOSED}")
  case True
  then have "resolves s u (SocketClose code j) = None"
    and "table_step s (SocketClose code j) = (pendingRequests s, [])"
    by auto
  then show ?thesis using o by simp
next
  case False
  then have "resolves s u (SocketClose code j) = Some (Response None False)"
    and "table_step s (SocketClose code j) = ([], failPending (pendingRequests s))"
    by auto
  then show ?thesis using only_at_filter[OF o]
    by (simp add: failPending_calls absent_def)
qed

lemma only_at_timer:
  assumes o: "only_at (pendingRequests s) u h q"
  shows "case resolves s u (TimerFire t now f) of
           Some r \<Rightarrow> absent (fst (table_step s (TimerFire t now f))) h
                     \<and> filter (is_call h) (snd (table_step s (TimerFire t now f))) = [WaiterCallback h r]
         | None \<Rightarrow> only_at (fst (table_step s (TimerFire t now f))) u h q
                     \<and> filter (is_call h) (snd (table_step s (TimerFire t now f))) = []"
proof -
  have g: "Map_get (pendingRequests s) u = Some q" and hq: "onMessage q = h"
    using o by (simp_all add: only_at_def Map_get_def)
  show ?thesis
  proof (cases "map_of (timers s) t = Some QueManagerTick")
    case False
    then show ?thesis using o by simp
  next
    case True
    have fl: "filter (\<lambda>e. onMessage (snd e) = h) (filter (\<lambda>e. expired now (snd e)) (pendingRequests s))
                = filter (\<lambda>e. expired now (snd e)) [(u, q)]"
      using only_at_filter[OF o] filter_swap[of "\<lambda>e. onMessage (snd e) = h" "\<lambda>e. expired now (snd e)" "pendingRequests s"]
      by simp
    show ?thesis
    proof (cases "expired now q")
      case e: True
      have "absent (filter (\<lambda>e. \<not> expired now (snd e)) (pendingRequests s)) h"
        using o by (rule only_at_drop) (use e in simp)
      then show ?thesis using True e g fl by (simp add: failPending_calls)
    next
      case e: False
      have "only_at (filter (\<lambda>e. \<not> expired now (snd e)) (pendingRequests s)) u h q"
        using o by (rule only_at_keep) (use e in simp)
      then show ?thesis using True e g fl by (simp add: failPending_calls)
    qed
  qed
qed

lemma table_step_only_at:
  assumes o: "only_at (pendingRequests s) u h q" and nr: "\<not> registers h i" and nu: "\<not> sends_uuid u i"
  shows "case resolves s u i of
           Some r \<Rightarrow> absent (fst (table_step s i)) h
                     \<and> filter (is_call h) (snd (table_step s i)) = [WaiterCallback h r]
         | None \<Rightarrow> only_at (fst (table_step s i)) u h q
                     \<and> filter (is_call h) (snd (table_step s i)) = []"
proof (cases i)
  case (SocketMessage p)
  then show ?thesis using only_at_message[OF o, of p] by (simp only:)
next
  case (SocketClose code j)
  then show ?thesis using only_at_close[OF o, of code j] by (simp only:)
next
  case (TimerFire t now f)
  then show ?thesis using only_at_timer[OF o, of t now f] by (simp only:)
next
  case (OnResponse m cb now)
  then show ?thesis using o nr nu by (simp add: only_at_Map_set_other)
next
  case (SendAndWait m cb now)
  then show ?thesis using o nr nu by (simp add: only_at_Map_set_other)
qed (use o in simp_all)

lemma run_absent:
  "absent (pendingRequests s) h \<Longrightarrow> \<forall>i\<in>set is. \<not> registers h i \<Longrightarrow>
   filter (is_call h) (snd (run s is)) = []"
proof (induction "is" arbitrary: s)
  case Nil
  then show ?case by simp
next
  case (Cons i "is")
  from Cons.prems have nr: "\<not> registers h i" and rest: "\<forall>i\<in>set is. \<not> registers h i" by simp_all
  from table_step_absent[OF Cons.prems(1) nr]
  have "absent (pendingRequests (fst (step s i))) h" and "filter (is_call h) (snd (step s i)) = []"
    by (simp_all add: step_pending step_calls)
  then show ?case using Cons.IH[OF _ rest, of "fst (step s i)"]
    by (simp add: split_def Let_def)
qed

lemma run_only_at:
  "only_at (pendingRequests s) u h q \<Longrightarrow> \<forall>i\<in>set is. \<not> registers h i \<and> \<not> sends_uuid u i \<Longrightarrow>
   filter (is_call h) (snd (run s is))
     = (case first_resolution s u is of None \<Rightarrow> [] | Some r \<Rightarrow> [WaiterCallback h r])"
proof (induction "is" arbitrary: s)
  case Nil
  then show ?case by simp
next
  case (Cons i "is")
  from Cons.prems have nr: "\<not> registers h i" and nu: "\<not> sends_uuid u i"
    and rest: "\<forall>i\<in>set is. \<not> registers h i \<and> \<not> sends_uuid u i" by simp_all
  note ts = table_step_only_at[OF Cons.prems(1) nr nu]
  show ?case
  proof (cases "resolves s u i")
    case None
    with ts have "only_at (pendingRequests (fst (step s i))) u h q"
      and "filter (is_call h) (snd (step s i)) = []"
      by (simp_all add: step_pending step_calls)
    then show ?thesis using Cons.IH[OF _ rest, of "fst (step s i)"] None
      by (simp add: split_def Let_def)
  next
    case (Some r)
    with ts have "absent (pendingRequests (fst (step s i))) h"
      and "filter (is_call h) (snd (step s i)) = [WaiterCallback h r]"
      by (simp_all add: step_pending step_calls)
    moreover have "\<forall>i\<in>set is. \<not> registers h i" using rest by simp
    ultimately show ?thesis using run_absent[of "fst (step s i)" h "is"] Some
      by (simp add: split_def Let_def)
  qed
qed

text \<open>
  Both invariants hold of a new session, whose table is empty, and as long as no send
  registers the handler.
\<close>

lemma table_step_distinct:
  "distinct (map fst (pendingRequests s)) \<Longrightarrow> distinct (map fst (fst (table_step s i)))"
proof (cases i)
  case (SocketMessage p)
  assume d: "distinct (map fst (pendingRequests s))"
  show ?thesis
  proof (cases "\<exists>msg u q. p = Some msg \<and> socket s = Some OPEN \<and> correlates msg = Some u
                  \<and> Map_get (pendingRequests s) u = Some q")
    case True
    then show ?thesis using SocketMessage d by (auto simp: Map_delete_filter distinct_filter_fst)
  next
    case False
    then have "table_step s i = (pendingRequests s, [])"
      using SocketMessage by (auto split: option.splits)
    then show ?thesis using d by simp
  qed
next
  case (OnResponse m cb now)
  then show "distinct (map fst (pendingRequests s)) \<Longrightarrow> ?thesis" by (simp add: distinct_Map_set)
next
  case (SendAndWait m cb now)
  then show "distinct (map fst (pendingRequests s)) \<Longrightarrow> ?thesis" by (simp add: distinct_Map_set)
qed (simp_all add: distinct_filter_fst)

lemma run_distinct:
  "distinct (map fst (pendingRequests s)) \<Longrightarrow> distinct (map fst (pendingRequests (fst (run s is))))"
proof (induction "is" arbitrary: s)
  case Nil
  then show ?case by simp
next
  case (Cons i "is")
  from table_step_distinct[OF Cons.prems, of i]
  have "distinct (map fst (pendingRequests (fst (step s i))))" by (simp add: step_pending)
  from Cons.IH[OF this] show ?case by (simp add: split_def Let_def)
qed

lemma run_keeps_absent:
  "absent (pendingRequests s) h \<Longrightarrow> \<forall>i\<in>set is. \<not> registers h i \<Longrightarrow>
   absent (pendingRequests (fst (run s is))) h"
proof (induction "is" arbitrary: s)
  case Nil
  then show ?case by simp
next
  case (Cons i "is")
  from Cons.prems have nr: "\<not> registers h i" and rest: "\<forall>i\<in>set is. \<not> registers h i" by simp_all
  from table_step_absent[OF Cons.prems(1) nr]
  have "absent (pendingRequests (fst (step s i))) h" by (simp add: step_pending)
  from Cons.IH[OF this rest] show ?case by (simp add: split_def Let_def)
qed

lemma new_ObservableSocket_absent:
  "absent (pendingRequests (fst (new_ObservableSocket nm url c1 c2 cfg))) h"
  by (simp add: new_ObservableSocket_def connect_def absent_def)

text \<open>
  C1, as the code has it: take a correlated send whose handler waits for nothing else
  at the time of the send and is registered by no later send, and whose uuid no later
  send uses. Over the rest of any execution the handler is called at most once: exactly
  once when one of the three resolving tasks follows the send (a frame other than PONG
  that carries the uuid arrives on the open transport; the transport's close event is
  handled; the sweep timer fires at a time past the expiry while the request is pending),
  with the response of the first such task, and not at all when none follows. A
  \<open>sendAndWait\<close> on a transport that is not open registers nothing and its handler is
  never called.
\<close>

theorem correlated_send_resolved_by_first_resolution:
  assumes a: "absent (pendingRequests s) h"
    and rest: "\<forall>i\<in>set is. \<not> registers h i \<and> \<not> sends_uuid (uuid m) i"
  shows "filter (is_call h) (snd (run s (OnResponse m h now # is)))
           = (case first_resolution (fst (step s (OnResponse m h now))) (uuid m) is of
                None \<Rightarrow> [] | Some r \<Rightarrow> [WaiterCallback h r])
       \<and> filter (is_call h) (snd (run s (SendAndWait m h now # is)))
           = (if socket s = Some OPEN
              then case first_resolution (fst (step s (SendAndWait m h now))) (uuid m) is of
                     None \<Rightarrow> [] | Some r \<Rightarrow> [WaiterCallback h r]
              else [])"
proof -
  let ?q = "\<lparr>onMessage = h, expire = Some (now + requestTimeout s)\<rparr>"
  have o: "only_at (Map_set (uuid m) ?q (pendingRequests s)) (uuid m) h ?q"
    using a by (rule only_at_Map_set_new) simp
  have nr: "\<forall>i\<in>set is. \<not> registers h i" using rest by simp
  have 1: "only_at (pendingRequests (fst (step s (OnResponse m h now)))) (uuid m) h ?q"
    and 2: "filter (is_call h) (snd (step s (OnResponse m h now))) = []"
    using o by (simp_all only: step_pending step_calls) simp_all
  have A: "filter (is_call h) (snd (run s (OnResponse m h now # is)))
           = (case first_resolution (fst (step s (OnResponse m h now))) (uuid m) is of
                None \<Rightarrow> [] | Some r \<Rightarrow> [WaiterCallback h r])"
    using run_only_at[OF 1 rest] 2 by (simp add: split_def Let_def)
  have B: "filter (is_call h) (snd (run s (SendAndWait m h now # is)))
           = (if socket s = Some OPEN
              then case first_resolution (fst (step s (SendAndWait m h now))) (uuid m) is of
                     None \<Rightarrow> [] | Some r \<Rightarrow> [WaiterCallback h r]
              else [])"
  proof (cases "socket s = Some OPEN")
    case True
    have 3: "only_at (pendingRequests (fst (step s (SendAndWait m h now)))) (uuid m) h ?q"
      and 4: "filter (is_call h) (snd (step s (SendAndWait m h now))) = []"
      using o True
      by (simp_all only: step_pending step_calls) simp_all
    show ?thesis using run_only_at[OF 3 rest] 4 True by (simp add: split_def Let_def)
  next
    case False
    have 3: "absent (pendingRequests (fst (step s (SendAndWait m h now)))) h"
      and 4: "filter (is_call h) (snd (step s (SendAndWait m h now))) = []"
      using a False
      by (simp_all only: step_pending step_calls) simp_all
    show ?thesis using run_absent[OF 3 nr] 4 False by (simp add: split_def Let_def)
  qed
  show ?thesis using A B by simp
qed

lemma ex_open_eval:
  "pendingRequests ex_open = []" "socket ex_open = Some OPEN" "requestTimeout ex_open = 30000"
  by (simp_all add: ex_open_def ex_new_eq eval_defs)

theorem correlated_send_resolved_by_first_resolution_witness:
  "absent (pendingRequests ex_open) 7
   \<and> \<not> registers 7 (SocketMessage (Some ex_frame)) \<and> \<not> sends_uuid ''u1'' (SocketMessage (Some ex_frame))
   \<and> \<not> registers 7 (SocketClose 1006 0) \<and> \<not> sends_uuid ''u1'' (SocketClose 1006 0)
   \<and> filter (is_call 7)
        (snd (run ex_open [OnResponse ex_message 7 0, SocketMessage (Some ex_frame), SocketClose 1006 0]))
       = [WaiterCallback 7 (Response (Some ex_frame) True)]"
proof -
  have a: "absent (pendingRequests ex_open) 7" by (simp add: ex_open_eval absent_def)
  have u: "uuid ex_message = ''u1''" by (simp add: ex_message_def new_Message_def)
  have r: "\<forall>i\<in>set [SocketMessage (Some ex_frame), SocketClose 1006 0].
             \<not> registers 7 i \<and> \<not> sends_uuid (uuid ex_message) i"
    by simp
  have c: "correlates ex_frame = Some ''u1''"
    by (simp add: correlates_def ex_frame_def get_prop_def)
  have s1: "socket (fst (step ex_open (OnResponse ex_message 7 0))) = Some OPEN"
    by (simp add: onResponse_eq Let_def ex_open_eval)
  have f: "first_resolution (fst (step ex_open (OnResponse ex_message 7 0))) ''u1''
             [SocketMessage (Some ex_frame), SocketClose 1006 0]
           = Some (Response (Some ex_frame) True)"
    using s1 c by simp
  from correlated_send_resolved_by_first_resolution[OF a r, of 0]
  show ?thesis using a f by (simp add: u)
qed

text \<open>
  C1 as the specification states it does not hold of the code. With the sweep enabled:
  the transport opens and the peer closes it with a policy code, so the session is
  terminal and both timers are stopped; \<open>onResponse\<close> then registers a waiter at time
  0 (expiry 30000); the caller calls \<open>close()\<close>; at time 100000 the handler has not
  been called and the request is still pending. With the default configuration (no
  sweep): the request is sent at time 0 on an open transport, and at time 100000 its
  handler has not been called.
\<close>

theorem waiter_never_resolved:
  "filter (is_call 7)
     (snd (run ex_sweep [SocketOpen, SocketClose 1008 0, OnResponse ex_message 7 0, Close,
                         TimerFire 2 100000 []])) = []
   \<and> pendingRequests
        (fst (run ex_sweep [SocketOpen, SocketClose 1008 0, OnResponse ex_message 7 0, Close,
                            TimerFire 2 100000 []]))
       = [(''u1'', \<lparr>onMessage = 7, expire = Some 30000\<rparr>)]
   \<and> filter (is_call 7)
        (snd (run ex_new [SocketOpen, OnResponse ex_message 7 0, TimerFire 1 100000 []])) = []
   \<and> pendingRequests (fst (run ex_new [SocketOpen, OnResponse ex_message 7 0, TimerFire 1 100000 []]))
       = [(''u1'', \<lparr>onMessage = 7, expire = Some 30000\<rparr>)]"
  by (simp add: ex_sweep_def ex_new_eq ex_message_def eval_defs heartbeatFire_def sendMessage_def
      ws_send_def uncaught_def)

subsection \<open>A correlated send while the transport is not open\<close>

lemma first_resolution_cases:
  "first_resolution s u is = Some r \<Longrightarrow>
   r = Response None False
   \<or> (\<exists>msg. SocketMessage (Some msg) \<in> set is \<and> correlates msg = Some u \<and> r = Response (Some msg) True)"
proof (induction "is" arbitrary: s)
  case Nil
  then show ?case by simp
next
  case (Cons i "is")
  show ?case
  proof (cases "resolves s u i")
    case None
    with Cons.prems have "first_resolution (fst (step s i)) u is = Some r" by simp
    from Cons.IH[OF this] show ?thesis by auto
  next
    case (Some r')
    with Cons.prems have r: "r' = r" by simp
    show ?thesis
    proof (cases i)
      case (SocketMessage p)
      then show ?thesis using Some r by (cases p) (auto split: if_splits)
    next
      case (SocketClose code jitter)
      then show ?thesis using Some r by (auto split: if_splits)
    next
      case (TimerFire t now fresh)
      then show ?thesis using Some r by (auto split: if_splits)
    qed (use Some in simp_all)
  qed
qed

lemma ex_sweep_eval:
  "socket ex_sweep = Some CONNECTING" "pendingRequests ex_sweep = []"
  "requestTimeout ex_sweep = 30000"
  by (simp_all add: ex_sweep_def eval_defs)

text \<open>
  C9, as the code has it: called while the transport is not open, \<open>onResponse\<close>
  transmits nothing and calls no handler; it logs the failed send and still enters the
  waiter under the envelope's uuid, with \<open>expire = now + requestTimeout\<close>. Take a
  handler that waits for nothing else at the time of the call and is registered by no
  later send, and a uuid that no later send uses. Over the rest of any execution the
  handler is called at most once, by the first task that resolves the request: the
  transport's close event or a tick of the running sweep timer at a time past the expiry,
  both with \<open>{message: null, success: false}\<close>, or, once the transport has opened, a
  frame other than PONG that carries the uuid, with that frame and \<open>success: true\<close>.
  When no such task follows, the handler is never called.
\<close>

theorem onResponse_not_open_registers:
  assumes no: "socket s \<noteq> Some OPEN"
    and a: "absent (pendingRequests s) h"
    and rest: "\<forall>i\<in>set is. \<not> registers h i \<and> \<not> sends_uuid (uuid m) i"
  shows "onResponse s m h now
           = Inr (s\<lparr>pendingRequests :=
                      Map_set (uuid m) \<lparr>onMessage = h, expire = Some (now + requestTimeout s)\<rparr>
                        (pendingRequests s)\<rparr>,
                  m\<lparr>headers := Some (spread (globalHeaders s) (headers m))\<rparr>,
                  [ConsoleError ''Cannot send message: WebSocket is not connected.''])
       \<and> Map_get (pendingRequests (fst (step s (OnResponse m h now)))) (uuid m)
           = Some \<lparr>onMessage = h, expire = Some (now + requestTimeout s)\<rparr>
       \<and> snd (step s (OnResponse m h now))
           = [ConsoleError ''Cannot send message: WebSocket is not connected.'']
       \<and> filter (is_call h) (snd (run s (OnResponse m h now # is)))
           = (case first_resolution (fst (step s (OnResponse m h now))) (uuid m) is of
                None \<Rightarrow> [] | Some r \<Rightarrow> [WaiterCallback h r])
       \<and> (\<forall>r. first_resolution (fst (step s (OnResponse m h now))) (uuid m) is = Some r \<longrightarrow>
            r = Response None False
            \<or> (\<exists>msg. SocketMessage (Some msg) \<in> set is \<and> correlates msg = Some (uuid m)
                 \<and> r = Response (Some msg) True))"
proof -
  let ?q = "\<lparr>onMessage = h, expire = Some (now + requestTimeout s)\<rparr>"
  let ?s' = "s\<lparr>pendingRequests := Map_set (uuid m) ?q (pendingRequests s)\<rparr>"
  have 1: "onResponse s m h now =
      Inr (?s', m\<lparr>headers := Some (spread (globalHeaders s) (headers m))\<rparr>,
           [ConsoleError ''Cannot send message: WebSocket is not connected.''])"
    using no by (simp add: onResponse_eq Let_def)
  have st: "step s (OnResponse m h now)
      = (?s', [ConsoleError ''Cannot send message: WebSocket is not connected.''])"
    by (simp add: 1)
  have 2: "Map_get (pendingRequests (fst (step s (OnResponse m h now)))) (uuid m) = Some ?q"
    by (simp only: st) simp
  have 3: "snd (step s (OnResponse m h now))
      = [ConsoleError ''Cannot send message: WebSocket is not connected.'']"
    by (simp only: st) simp
  have o: "only_at (pendingRequests (fst (step s (OnResponse m h now)))) (uuid m) h ?q"
    using only_at_Map_set_new[OF a, of ?q "uuid m"] by (simp only: st) simp
  have 4: "filter (is_call h) (snd (run s (OnResponse m h now # is)))
           = (case first_resolution (fst (step s (OnResponse m h now))) (uuid m) is of
                None \<Rightarrow> [] | Some r \<Rightarrow> [WaiterCallback h r])"
    using run_only_at[OF o rest] 3 by (simp add: split_def Let_def)
  have 5: "\<forall>r. first_resolution (fst (step s (OnResponse m h now))) (uuid m) is = Some r \<longrightarrow>
            r = Response None False
            \<or> (\<exists>msg. SocketMessage (Some msg) \<in> set is \<and> correlates msg = Some (uuid m)
                 \<and> r = Response (Some msg) True)"
    using first_resolution_cases by blast
  show ?thesis using 1 2 3 4 5 by (simp only: simp_thms)
qed

theorem onResponse_not_open_registers_witness:
  "socket ex_new \<noteq> Some OPEN \<and> absent (pendingRequests ex_new) 7
   \<and> \<not> registers 7 (SocketClose 1006 0) \<and> \<not> sends_uuid ''u1'' (SocketClose 1006 0)
   \<and> \<not> registers 7 SocketOpen \<and> \<not> sends_uuid ''u1'' SocketOpen
   \<and> \<not> registers 7 (TimerFire 2 30001 []) \<and> \<not> sends_uuid ''u1'' (TimerFire 2 30001 [])
   \<and> snd (step ex_new (OnResponse ex_message 7 0))
       = [ConsoleError ''Cannot send message: WebSocket is not connected.'']
   \<and> Map_get (pendingRequests (fst (step ex_new (OnResponse ex_message 7 0)))) ''u1''
       = Some \<lparr>onMessage = 7, expire = Some 30000\<rparr>
   \<and> filter (is_call 7) (snd (run ex_new [OnResponse ex_message 7 0, SocketClose 1006 0]))
       = [WaiterCallback 7 (Response None False)]
   \<and> socket ex_sweep \<noteq> Some OPEN \<and> absent (pendingRequests ex_sweep) 7
   \<and> filter (is_call 7)
        (snd (run ex_sweep [OnResponse ex_message 7 0, SocketOpen, TimerFire 2 30001 []]))
       = [WaiterCallback 7 (Response None False)]
   \<and> filter (is_call 7) (snd (run ex_sweep [OnResponse ex_message 7 0, SocketOpen])) = []"
proof -
  have u: "uuid ex_message = ''u1''" by (simp add: ex_message_def new_Message_def)
  have n: "socket ex_new \<noteq> Some OPEN" "absent (pendingRequests ex_new) 7"
    by (simp_all add: ex_new_eq absent_def)
  have w: "socket ex_sweep \<noteq> Some OPEN" "absent (pendingRequests ex_sweep) 7"
    by (simp_all add: ex_sweep_eval absent_def)
  have r1: "\<forall>i\<in>set [SocketClose 1006 0]. \<not> registers 7 i \<and> \<not> sends_uuid (uuid ex_message) i"
    and r2: "\<forall>i\<in>set [SocketOpen, TimerFire 2 30001 []]. \<not> registers 7 i \<and> \<not> sends_uuid (uuid ex_message) i"
    and r3: "\<forall>i\<in>set [SocketOpen]. \<not> registers 7 i \<and> \<not> sends_uuid (uuid ex_message) i"
    by simp_all
  have f1: "first_resolution (fst (step ex_new (OnResponse ex_message 7 0))) ''u1'' [SocketClose 1006 0]
              = Some (Response None False)"
    by (simp add: ex_new_eq onResponse_eq Let_def)
  have f2: "first_resolution (fst (step ex_sweep (OnResponse ex_message 7 0))) ''u1''
              [SocketOpen, TimerFire 2 30001 []] = Some (Response None False)"
    by (simp add: ex_sweep_def ex_message_def eval_defs Map_get_def)
  have f3: "first_resolution (fst (step ex_sweep (OnResponse ex_message 7 0))) ''u1'' [SocketOpen] = None"
    by simp
  have q: "requestTimeout ex_new = 30000" by (simp add: ex_new_eq)
  from onResponse_not_open_registers[OF n r1, of 0] onResponse_not_open_registers[OF w r2, of 0] onResponse_not_open_registers[OF w r3, of 0]
  show ?thesis using n w by (simp only: u f1 f2 f3 q) simp
qed

text \<open>
  C9 as the specification states it does not hold of the code. A waiter registered while
  the transport is connecting is called with the answering frame and \<open>success: true\<close>
  once the transport has opened and the frame has arrived. A waiter registered on a
  session whose transport the peer has closed for good is never called, whatever follows
  (\<open>close()\<close>, a close event, timers): no timer runs and no close event is handled any
  more, and the request stays pending.
\<close>

theorem offline_waiter_answered_or_never_called:
  "socket ex_new = Some CONNECTING
   \<and> filter (is_call 7)
        (snd (run ex_new [OnResponse ex_message 7 0, SocketOpen, SocketMessage (Some ex_frame)]))
       = [WaiterCallback 7 (Response (Some ex_frame) True)]
   \<and> socket ex_closed = Some CLOSED
   \<and> filter (is_call 7)
        (snd (run ex_closed [OnResponse ex_message 7 0, Close, SocketClose 1000 0,
                             TimerFire 1 100000 [], TimerFire 2 100000 []])) = []
   \<and> pendingRequests
        (fst (run ex_closed [OnResponse ex_message 7 0, Close, SocketClose 1000 0,
                             TimerFire 1 100000 [], TimerFire 2 100000 []]))
       = [(''u1'', \<lparr>onMessage = 7, expire = Some 30000\<rparr>)]"
  by (simp add: ex_closed_def ex_session_def ex_new_eq ex_message_def ex_frame_def eval_defs
      socket_onmessage_def onmessage_try_def get_prop_def uncaught_def Map_get_def Map_delete_def)


subsection \<open>Serialisation round trip\<close>

lemma digit_char_is_digit: "d < 10 \<Longrightarrow> is_digit (char_of (48 + d :: nat))"
  by (simp add: is_digit_def)

lemma show_nat_digits: "\<forall>c\<in>set (show_nat n). is_digit c"
proof (induction n rule: show_nat.induct)
  case (1 n)
  show ?case
  proof (cases "n < 10")
    case True
    then show ?thesis by (simp add: show_nat.simps[of n] digit_char_is_digit)
  next
    case False
    then show ?thesis using 1 by (simp add: show_nat.simps[of n] digit_char_is_digit)
  qed
qed

lemma show_nat_nonempty: "show_nat n \<noteq> []"
  by (simp add: show_nat.simps[of n])

lemma digits_val_snoc: "digits_val (ds @ [d]) = 10 * digits_val ds + ((of_char d :: nat) - 48)"
  by (simp add: digits_val_def)

lemma digits_val_show_nat: "digits_val (show_nat n) = n"
proof (induction n rule: show_nat.induct)
  case (1 n)
  show ?case
  proof (cases "n < 10")
    case True
    then show ?thesis by (simp add: show_nat.simps[of n] digits_val_def)
  next
    case False
    have "n mod 10 < 10" by simp
    then have "(of_char (char_of (48 + n mod 10 :: nat)) :: nat) = 48 + n mod 10" by simp
    then show ?thesis using False 1 by (simp add: show_nat.simps[of n] digits_val_snoc)
  qed
qed

lemma show_nat_no_leading_zero: "0 < n \<Longrightarrow> hd (show_nat n) \<noteq> CHR ''0''"
proof (induction n rule: show_nat.induct)
  case (1 n)
  show ?case
  proof (cases "n < 10")
    case True
    have "(of_char (char_of (48 + n)) :: nat) = 48 + n" using True by simp
    moreover have "(of_char (CHR ''0'') :: nat) = 48" by simp
    ultimately have "char_of (48 + n) \<noteq> CHR ''0''" using 1(2) by (metis add_cancel_right_right less_irrefl)
    then show ?thesis using True by (simp add: show_nat.simps[of n])
  next
    case False
    then have "0 < n div 10" by simp
    with 1(1)[OF False] have "hd (show_nat (n div 10)) \<noteq> CHR ''0''" by simp
    then show ?thesis using False show_nat_nonempty[of "n div 10"]
      by (simp add: show_nat.simps[of n])
  qed
qed

lemma show_nat_length_one: "length (show_nat n) \<le> 1 \<Longrightarrow> n < 10"
proof (rule ccontr)
  assume l: "length (show_nat n) \<le> 1" and "\<not> n < 10"
  then have "show_nat n = show_nat (n div 10) @ [char_of (48 + n mod 10)]"
    by (simp add: show_nat.simps[of n])
  then show False using l show_nat_nonempty[of "n div 10"] by (cases "show_nat (n div 10)") simp_all
qed

lemma delim_not_digit: "delim rest \<Longrightarrow> rest \<noteq> [] \<Longrightarrow> \<not> is_digit (hd rest)"
  by (cases rest) (auto simp: delim_def is_digit_def)

lemma delim_not_frac: "delim rest \<Longrightarrow> rest \<noteq> [] \<Longrightarrow> hd rest \<notin> {CHR ''.'', CHR ''e'', CHR ''E''}"
  by (cases rest) (auto simp: delim_def)

lemma parse_nat_show_nat:
  assumes "delim rest"
  shows "parse_nat (show_nat n @ rest) = Some (n, rest)"
proof -
  have tw: "takeWhile is_digit (show_nat n @ rest) = show_nat n"
    using show_nat_digits[of n] delim_not_digit[OF assms]
    by (cases rest) (simp_all add: takeWhile_append2 takeWhile_eq_all_conv)
  have dw: "dropWhile is_digit (show_nat n @ rest) = rest"
    using show_nat_digits[of n] delim_not_digit[OF assms]
    by (cases rest) (simp_all add: dropWhile_append2)
  have lz: "\<not> (1 < length (show_nat n) \<and> hd (show_nat n) = CHR ''0'')"
  proof (cases "n = 0")
    case True
    then show ?thesis by (simp add: show_nat.simps[of 0])
  next
    case False
    then show ?thesis using show_nat_no_leading_zero[of n] by simp
  qed
  have fr: "\<not> (rest \<noteq> [] \<and> hd rest \<in> {CHR ''.'', CHR ''e'', CHR ''E''})"
    using delim_not_frac[OF assms] by blast
  show ?thesis
    using lz fr show_nat_nonempty[of n]
    by (simp only: parse_nat_def tw dw Let_def digits_val_show_nat if_False)
qed

lemma hd_show_nat_digit: "is_digit (hd (show_nat n))"
  using show_nat_digits[of n] show_nat_nonempty[of n] by (cases "show_nat n") simp_all

lemma digit_not_minus: "is_digit c \<Longrightarrow> c \<noteq> CHR ''-''"
  by (auto simp: is_digit_def)

lemma parse_number_show_int:
  assumes "delim rest"
  shows "parse_number (show_int i @ rest) = Some (JNumber i, rest)"
proof (cases "i < 0")
  case True
  then have "nat (- i) \<noteq> 0" and "- int (nat (- i)) = i" by simp_all
  then show ?thesis using True parse_nat_show_nat[OF assms, of "nat (- i)"]
    by (simp add: parse_number_def show_int_def)
next
  case False
  obtain c r where cr: "show_nat (nat i) = c # r"
    using show_nat_nonempty[of "nat i"] by (cases "show_nat (nat i)") auto
  have "c \<noteq> CHR ''-''" using hd_show_nat_digit[of "nat i"] cr digit_not_minus by simp
  then show ?thesis using False parse_nat_show_nat[OF assms, of "nat i"] cr
    by (simp add: parse_number_def show_int_def)
qed

lemma hex_val_hex_digit: "d < 16 \<Longrightarrow> hex_val (hex_digit d) = Some d"
proof (cases "d < 10")
  case True
  then show ?thesis by (simp add: hex_val_def hex_digit_def)
next
  case False
  assume "d < 16"
  with False have "(of_char (char_of (87 + d)) :: nat) = 87 + d" by simp
  then show ?thesis using False \<open>d < 16\<close> by (simp add: hex_val_def hex_digit_def Let_def)
qed

lemma unescape_u_control:
  assumes "(of_char c :: nat) < 32"
  shows "unescape_u (CHR ''0'') (CHR ''0'') (hex_digit ((of_char c :: nat) div 16))
           (hex_digit ((of_char c :: nat) mod 16)) = Some c"
proof -
  let ?n = "of_char c :: nat"
  have 0: "hex_val (CHR ''0'') = Some 0" by (simp add: hex_val_def)
  have 1: "hex_val (hex_digit (?n div 16)) = Some (?n div 16)"
    using assms by (intro hex_val_hex_digit) simp
  have 2: "hex_val (hex_digit (?n mod 16)) = Some (?n mod 16)"
    by (intro hex_val_hex_digit) simp
  have "char_of (16 * (?n div 16) + ?n mod 16) = c" by simp
  then show ?thesis by (simp add: unescape_u_def 0 1 2)
qed

lemma parse_string_quote_char:
  "parse_string (quote_char c @ X) = cons_result c (parse_string X)"
proof -
  consider (q) "c = CHR 0x22" | (b) "c = CHR 0x5C" | (bs) "c = CHR 0x08" | (ff) "c = CHR 0x0C"
    | (nl) "c = CHR 0x0A" | (cr) "c = CHR 0x0D" | (tab) "c = CHR 0x09"
    | (ctl) "c \<notin> {CHR 0x22, CHR 0x5C, CHR 0x08, CHR 0x0C, CHR 0x0A, CHR 0x0D, CHR 0x09}" "(of_char c :: nat) < 32"
    | (lit) "c \<notin> {CHR 0x22, CHR 0x5C, CHR 0x08, CHR 0x0C, CHR 0x0A, CHR 0x0D, CHR 0x09}" "\<not> (of_char c :: nat) < 32"
    by blast
  then show ?thesis
  proof cases
    case q then show ?thesis by (simp add: quote_char_def unescape_def)
  next
    case b then show ?thesis by (simp add: quote_char_def unescape_def)
  next
    case bs then show ?thesis by (simp add: quote_char_def unescape_def)
  next
    case ff then show ?thesis by (simp add: quote_char_def unescape_def)
  next
    case nl then show ?thesis by (simp add: quote_char_def unescape_def)
  next
    case cr then show ?thesis by (simp add: quote_char_def unescape_def)
  next
    case tab then show ?thesis by (simp add: quote_char_def unescape_def)
  next
    case ctl
    then show ?thesis using unescape_u_control[OF ctl(2)] by (simp add: quote_char_def)
  next
    case lit
    then show ?thesis by (simp add: quote_char_def)
  qed
qed

lemma parse_string_quoted:
  "parse_string (concat (map quote_char s) @ CHR 0x22 # rest) = Some (s, rest)"
  by (induction s) (simp_all add: parse_string_quote_char cons_result_def)

lemma parse_string_quote: "parse_string (tl (quote s) @ rest) = Some (s, rest)"
  by (simp add: quote_def parse_string_quoted)

lemma show_int_hd: "\<exists>c r. show_int i = c # r \<and> (c = CHR ''-'' \<or> is_digit c)"
proof (cases "i < 0")
  case True
  then show ?thesis by (simp add: show_int_def)
next
  case False
  obtain c r where "show_nat (nat i) = c # r"
    using show_nat_nonempty[of "nat i"] by (cases "show_nat (nat i)") auto
  then show ?thesis using False hd_show_nat_digit[of "nat i"] by (simp add: show_int_def)
qed

lemma number_start:
  assumes "c = CHR ''-'' \<or> is_digit c"
  shows "c \<noteq> CHR ''n'' \<and> c \<noteq> CHR ''t'' \<and> c \<noteq> CHR ''f'' \<and> c \<noteq> CHR 0x22
       \<and> c \<noteq> CHR ''['' \<and> c \<noteq> CHR ''{'' \<and> c \<noteq> CHR '']'' \<and> c \<noteq> CHR ''}''"
  using assms by (auto simp: is_digit_def)

lemma parse_value_number:
  assumes "delim rest"
  shows "parse_value (Suc n) (show_int i @ rest) = Some (JNumber i, rest)"
proof -
  obtain c r where cr: "show_int i = c # r" and c: "c = CHR ''-'' \<or> is_digit c"
    using show_int_hd[of i] by blast
  have "parse_value (Suc n) (show_int i @ rest) = parse_number (show_int i @ rest)"
    using number_start[OF c] by (simp add: cr)
  then show ?thesis using parse_number_show_int[OF assms] by simp
qed

lemma stringify_hd: "\<exists>c r. stringify v = c # r \<and> c \<noteq> CHR '']'' \<and> c \<noteq> CHR ''}''"
proof (cases v)
  case (JNumber i)
  obtain c r where "show_int i = c # r" and "c = CHR ''-'' \<or> is_digit c"
    using show_int_hd[of i] by blast
  then show ?thesis using JNumber number_start[of c] by simp
next
  case (JString s)
  then show ?thesis by (simp add: quote_def)
qed simp_all

lemma stringify_list_hd: "xs \<noteq> [] \<Longrightarrow> \<exists>c r. stringify_list xs = c # r \<and> c \<noteq> CHR '']''"
proof (cases xs)
  case Nil
  then show "xs \<noteq> [] \<Longrightarrow> ?thesis" by simp
next
  case (Cons x ys)
  obtain c r where "stringify x = c # r" "c \<noteq> CHR '']''" using stringify_hd[of x] by blast
  then show ?thesis using Cons by (cases ys) simp_all
qed

lemma stringify_members_hd:
  "kvs \<noteq> [] \<Longrightarrow> \<exists>r. stringify_members kvs = CHR 0x22 # r"
proof (cases kvs)
  case Nil
  then show "kvs \<noteq> [] \<Longrightarrow> ?thesis" by simp
next
  case (Cons e ys)
  obtain k v where "e = (k, v)" by (cases e)
  then show ?thesis using Cons by (cases ys) (simp_all add: quote_def)
qed

lemma foldl_Map_set_distinct:
  "distinct (map fst (acc @ kvs)) \<Longrightarrow>
   foldl (\<lambda>a e. Map_set (fst e) (snd e) a) acc kvs = acc @ kvs"
proof (induction kvs arbitrary: acc)
  case Nil
  then show ?case by simp
next
  case (Cons e kvs)
  obtain k v where e: "e = (k, v)" by (cases e)
  from Cons.prems have "k \<notin> fst ` set acc" by (auto simp: e)
  then have "Map_set k v acc = acc @ [(k, v)]" by (induction acc) auto
  moreover have "distinct (map fst ((acc @ [(k, v)]) @ kvs))" using Cons.prems by (simp add: e)
  ultimately show ?case using Cons.IH[of "acc @ [(k, v)]"] by (simp add: e)
qed

lemma object_of_distinct: "distinct (map fst kvs) \<Longrightarrow> object_of kvs = JObject kvs"
  using foldl_Map_set_distinct[of "[]" kvs] by (simp add: object_of_def)

lemma delim_simps [simp]:
  "delim []" "delim (CHR '']'' # r)" "delim (CHR '','' # r)" "delim (CHR ''}'' # r)"
  by (simp_all add: delim_def)

lemma parse_stringify:
  "wf_json v \<Longrightarrow> delim rest \<Longrightarrow> length (stringify v) \<le> n \<Longrightarrow>
     parse_value n (stringify v @ rest) = Some (v, rest)"
  "xs \<noteq> [] \<Longrightarrow> wf_jsons xs \<Longrightarrow> length (stringify_list xs) < n \<Longrightarrow>
     parse_elements n (stringify_list xs @ CHR '']'' # rest) = Some (xs, rest)"
  "kvs \<noteq> [] \<Longrightarrow> wf_members kvs \<Longrightarrow> length (stringify_members kvs) < n \<Longrightarrow>
     parse_members n (stringify_members kvs @ CHR ''}'' # rest) = Some (kvs, rest)"
proof (induction v and xs and kvs arbitrary: n rest and n rest and n rest
    rule: stringify_stringify_list_stringify_members.induct)
  case 1
  then obtain n' where "n = Suc n'" by (cases n) auto
  then show ?case by (simp add: strip_prefix_def)
next
  case (2 b)
  then obtain n' where "n = Suc n'" by (cases n) (auto split: if_splits)
  then show ?case by (simp add: strip_prefix_def)
next
  case (3 i)
  obtain c r where "show_int i = c # r" using show_int_hd[of i] by blast
  with 3 obtain n' where "n = Suc n'" by (cases n) auto
  then show ?case using parse_value_number[OF 3(2), of n' i] by (simp only: stringify.simps)
next
  case (4 s)
  then obtain n' where "n = Suc n'" by (cases n) (auto simp: quote_def)
  then show ?case by (simp add: quote_def parse_string_quoted)
next
  case (5 xs)
  from 5(4) obtain n' where n: "n = Suc n'" by (cases n) auto
  show ?case
  proof (cases "xs = []")
    case True
    then show ?thesis using n by simp
  next
    case False
    obtain c r where cr: "stringify_list xs = c # r" and c: "c \<noteq> CHR '']''"
      using stringify_list_hd[OF False] by blast
    have "length (stringify_list xs) < n'" using 5(4) n by simp
    from 5(1)[OF False _ this, of rest] 5(2)
    have "parse_elements n' (stringify_list xs @ CHR '']'' # rest) = Some (xs, rest)" by simp
    then show ?thesis using n c cr by simp
  qed
next
  case (6 kvs)
  from 6(4) obtain n' where n: "n = Suc n'" by (cases n) auto
  show ?case
  proof (cases "kvs = []")
    case True
    then show ?thesis using n by simp
  next
    case False
    obtain r where cr: "stringify_members kvs = CHR 0x22 # r"
      using stringify_members_hd[OF False] by blast
    have "length (stringify_members kvs) < n'" using 6(4) n by simp
    from 6(1)[OF False _ this, of rest] 6(2)
    have "parse_members n' (stringify_members kvs @ CHR ''}'' # rest) = Some (kvs, rest)" by simp
    moreover have "object_of kvs = JObject kvs" using 6(2) by (simp add: object_of_distinct)
    ultimately show ?thesis using n cr by simp
  qed
next
  case 7
  then show ?case by simp
next
  case (8 x)
  from 8(4) obtain n' where n: "n = Suc n'" by (cases n) auto
  have "parse_value n' (stringify x @ CHR '']'' # rest) = Some (x, CHR '']'' # rest)"
    using 8(1)[of "CHR '']'' # rest" n'] 8(3,4) n by simp
  then show ?case using n by simp
next
  case (9 x y ys)
  from 9(5) obtain n' where n: "n = Suc n'" by (cases n) auto
  have 1: "parse_value n' (stringify x @ CHR '','' # stringify_list (y # ys) @ CHR '']'' # rest)
             = Some (x, CHR '','' # stringify_list (y # ys) @ CHR '']'' # rest)"
    using 9(1)[of "CHR '','' # stringify_list (y # ys) @ CHR '']'' # rest" n'] 9(4,5) n by simp
  have 2: "parse_elements n' (stringify_list (y # ys) @ CHR '']'' # rest) = Some (y # ys, rest)"
    using 9(2)[of n' rest] 9(4,5) n by simp
  show ?case using n 1 2 by simp
next
  case 10
  then show ?case by simp
next
  case (11 k v)
  from 11(4) obtain n' where n: "n = Suc n'" by (cases n) auto
  have 1: "parse_string (concat (map quote_char k) @ CHR 0x22 # CHR '':'' # stringify v @ CHR ''}'' # rest)
             = Some (k, CHR '':'' # stringify v @ CHR ''}'' # rest)"
    by (rule parse_string_quoted)
  have 2: "parse_value n' (stringify v @ CHR ''}'' # rest) = Some (v, CHR ''}'' # rest)"
    using 11(1)[of "CHR ''}'' # rest" n'] 11(3,4) n by (simp add: quote_def)
  show ?case using n 1 2 by (simp add: quote_def)
next
  case (12 k v kv kvs)
  from 12(5) obtain n' where n: "n = Suc n'" by (cases n) auto
  let ?tail = "stringify_members (kv # kvs) @ CHR ''}'' # rest"
  have 1: "parse_string (concat (map quote_char k) @ CHR 0x22 # CHR '':'' # stringify v @ CHR '','' # ?tail)
             = Some (k, CHR '':'' # stringify v @ CHR '','' # ?tail)"
    by (rule parse_string_quoted)
  have 2: "parse_value n' (stringify v @ CHR '','' # ?tail) = Some (v, CHR '','' # ?tail)"
    using 12(1)[of "CHR '','' # ?tail" n'] 12(4,5) n by (simp add: quote_def)
  have 3: "parse_members n' ?tail = Some (kv # kvs, rest)"
    using 12(2)[of n' rest] 12(4,5) n by (simp add: quote_def)
  show ?case using n 1 2 3 by (simp add: quote_def)
qed

lemma JSON_parse_stringify: "wf_json v \<Longrightarrow> JSON_parse (stringify v) = Some v"
  using parse_stringify(1)[of v "[]" "Suc (length (stringify v))"] by (simp add: JSON_parse_def)

lemma wf_message_json: "wf_message m \<Longrightarrow> wf_json (message_json m)"
  by (cases "headers m"; cases "payload m"; cases "route m")
     (simp_all add: wf_message_def message_json_def)

lemma message_json_props:
  "get_prop (message_json m) ''uuid'' = Inr (Some (JString (uuid m)))"
  "get_prop (message_json m) ''route'' = Inr (Some (case route m of None \<Rightarrow> JNull | Some r \<Rightarrow> JString r))"
  "get_prop (message_json m) ''headers'' = Inr (map_option JObject (headers m))"
  "get_prop (message_json m) ''payload'' = Inr (payload m)"
  "get_prop (message_json m) ''status'' = Inr (Some (JNumber (status m)))"
  by (cases "headers m"; cases "payload m"; simp add: message_json_def get_prop_def)+

text \<open>
  C7. For every envelope whose headers and payload are JSON-like values, parsing the
  text \<open>serialize\<close> returns gives a value whose \<open>uuid\<close>, \<open>route\<close>, \<open>headers\<close>,
  \<open>payload\<close> and \<open>status\<close> are those of the envelope; headers or a payload that are
  \<open>undefined\<close> are absent from the text and \<open>undefined\<close> in the value read back.
\<close>

theorem serialize_round_trip:
  assumes "wf_message m"
  shows "\<exists>v. JSON_parse (serialize m) = Some v
          \<and> get_prop v ''uuid'' = Inr (Some (JString (uuid m)))
          \<and> get_prop v ''route'' = Inr (Some (case route m of None \<Rightarrow> JNull | Some r \<Rightarrow> JString r))
          \<and> get_prop v ''headers'' = Inr (map_option JObject (headers m))
          \<and> get_prop v ''payload'' = Inr (payload m)
          \<and> get_prop v ''status'' = Inr (Some (JNumber (status m)))"
  using JSON_parse_stringify[OF wf_message_json[OF assms]] message_json_props[of m]
  by (simp add: serialize_def)

theorem serialize_round_trip_witness:
  "wf_message ex_nested
   \<and> (\<exists>v. JSON_parse (serialize ex_nested) = Some v
        \<and> get_prop v ''payload''
            = Inr (Some (JObject [(''items'', JArray [JNumber (- 3), JString [CHR 0x22, CHR 0x0A], JNull,
                                                       JObject [(''ok'', JBool True)]]),
                                  (''note'', JString ''a/b'')]))
        \<and> get_prop v ''headers'' = Inr None
        \<and> get_prop v ''status'' = Inr (Some (JNumber 200)))"
proof -
  have w: "wf_message ex_nested" by (simp add: wf_message_def ex_nested_def new_Message_def)
  from serialize_round_trip[OF w] show ?thesis
    using w by (simp add: ex_nested_def new_Message_def StatusCodes_OK_def) blast
qed

subsection \<open>The headers on the wire\<close>

lemma wf_members_iff: "wf_members kvs = (\<forall>e\<in>set kvs. wf_json (snd e))"
  by (induction kvs) auto

lemma wf_members_Map_set: "wf_json v \<Longrightarrow> wf_members xs \<Longrightarrow> wf_members (Map_set k v xs)"
  using set_Map_set[of k v xs] by (auto simp: wf_members_iff)

lemma wf_members_foldl_Map_set:
  "wf_members g \<Longrightarrow> wf_members kvs \<Longrightarrow>
   wf_members (foldl (\<lambda>acc e. Map_set (fst e) (snd e) acc) g kvs)"
proof (induction kvs arbitrary: g)
  case Nil
  then show ?case by simp
next
  case (Cons e kvs)
  obtain k v where e: "e = (k, v)" by (cases e)
  from Cons.prems have "wf_json v" "wf_members kvs" by (simp_all add: e)
  then show ?case using Cons.IH[of "Map_set k v g"] Cons.prems(1)
    by (simp add: e wf_members_Map_set)
qed

lemma wf_spread:
  assumes "wf_json (JObject g)" and "wf_json (JObject (case h of None \<Rightarrow> [] | Some kvs \<Rightarrow> kvs))"
  shows "wf_json (JObject (spread g h))"
proof -
  have "distinct (map fst (spread g h))" using assms(1) by (simp add: distinct_spread)
  moreover have "wf_members (spread g h)"
    using assms by (simp add: spread_def wf_members_foldl_Map_set)
  ultimately show ?thesis by simp
qed

lemma wf_own_headers: "wf_message m \<Longrightarrow> wf_json (JObject (own_headers m))"
  by (cases "headers m") (simp_all add: wf_message_def own_headers_def)

lemma wf_message_headers:
  "wf_message m \<Longrightarrow> wf_json (JObject hs) \<Longrightarrow> wf_message (m\<lparr>headers := Some hs\<rparr>)"
  by (simp add: wf_message_def)

lemma sent_headers_read_back:
  assumes "wf_message m" and "wf_json (JObject hs)"
  shows "JSON_parse (serialize (m\<lparr>headers := Some hs\<rparr>)) = Some (message_json (m\<lparr>headers := Some hs\<rparr>))"
    and "get_prop (message_json (m\<lparr>headers := Some hs\<rparr>)) ''headers'' = Inr (Some (JObject hs))"
  using JSON_parse_stringify[OF wf_message_json[OF wf_message_headers[OF assms]]]
    message_json_props(3)[of "m\<lparr>headers := Some hs\<rparr>"]
  by (simp_all add: serialize_def)

lemma ex_wf:
  "wf_json (JObject (globalHeaders ex_session))" "wf_message ex_message"
  by (simp_all add: ex_simps wf_message_def ex_message_def new_Message_def)

text \<open>
  C6. While the transport is open, each of the three sends hands \<open>socket.send\<close> one
  text, the serialisation of the envelope with its headers replaced by a map \<open>hs\<close>.
  Parsing that text gives a value whose \<open>headers\<close> member is the object \<open>hs\<close>, and
  \<open>hs\<close> holds, for every key, the envelope's own value where it has one and the
  session's global value where it has none. Headers and payload are JSON-like values.
\<close>

theorem open_send_writes_merged_headers:
  assumes op: "socket s = Some OPEN"
    and g: "wf_json (JObject (globalHeaders s))"
    and m: "wf_message m"
  shows "(\<exists>hs v. sendMessage s m
              = Inr (m\<lparr>headers := Some hs\<rparr>, [SocketSend (serialize (m\<lparr>headers := Some hs\<rparr>))])
            \<and> JSON_parse (serialize (m\<lparr>headers := Some hs\<rparr>)) = Some v
            \<and> get_prop v ''headers'' = Inr (Some (JObject hs))
            \<and> (\<forall>k. map_of hs k = (case map_of (own_headers m) k of Some x \<Rightarrow> Some x
                                     | None \<Rightarrow> map_of (globalHeaders s) k)))
       \<and> (\<exists>s' hs v. onResponse s m cb now
              = Inr (s', m\<lparr>headers := Some hs\<rparr>, [SocketSend (serialize (m\<lparr>headers := Some hs\<rparr>))])
            \<and> JSON_parse (serialize (m\<lparr>headers := Some hs\<rparr>)) = Some v
            \<and> get_prop v ''headers'' = Inr (Some (JObject hs))
            \<and> (\<forall>k. map_of hs k = (case map_of (own_headers m) k of Some x \<Rightarrow> Some x
                                     | None \<Rightarrow> map_of (globalHeaders s) k)))
       \<and> (\<exists>s' hs v. sendAndWait s m cb now
              = Inr (s', m\<lparr>headers := Some hs\<rparr>, [SocketSend (serialize (m\<lparr>headers := Some hs\<rparr>))])
            \<and> JSON_parse (serialize (m\<lparr>headers := Some hs\<rparr>)) = Some v
            \<and> get_prop v ''headers'' = Inr (Some (JObject hs))
            \<and> (\<forall>k. map_of hs k = (case map_of (own_headers m) k of Some x \<Rightarrow> Some x
                                     | None \<Rightarrow> map_of (globalHeaders s) k)))"
proof -
  let ?g = "globalHeaders s"
  let ?h1 = "spread ?g (headers m)"
  let ?h2 = "spread ?g (Some ?h1)"
  have dg: "distinct (map fst ?g)" using g by simp
  have dh: "distinct (map fst (own_headers m))" using wf_own_headers[OF m] by simp
  have wh: "wf_json (JObject (case headers m of None \<Rightarrow> [] | Some kvs \<Rightarrow> kvs))"
    using wf_own_headers[OF m] by (simp add: own_headers_def)
  have w1: "wf_json (JObject ?h1)" using g wh by (rule wf_spread)
  have w2: "wf_json (JObject ?h2)" using g w1 by (intro wf_spread) simp_all
  have ov: "\<And>hs. map_of hs = map_of ?g ++ map_of (own_headers m) \<Longrightarrow>
      (\<forall>k. map_of hs k = (case map_of (own_headers m) k of Some x \<Rightarrow> Some x | None \<Rightarrow> map_of ?g k))"
    by (simp add: map_add_def)
  note o1 = ov[OF map_of_spread_own[OF dh, of ?g]]
  note o2 = ov[OF map_of_spread_twice_own[OF dg dh]]
  note r1 = sent_headers_read_back[OF m w1]
  note r2 = sent_headers_read_back[OF m w2]
  have 1: "sendMessage s m = Inr (m\<lparr>headers := Some ?h1\<rparr>, [SocketSend (serialize (m\<lparr>headers := Some ?h1\<rparr>))])"
    using op by (rule sendMessage_open)
  have 2: "\<exists>s'. onResponse s m cb now
      = Inr (s', m\<lparr>headers := Some ?h2\<rparr>, [SocketSend (serialize (m\<lparr>headers := Some ?h2\<rparr>))])"
    using op by (simp add: onResponse_eq Let_def)
  have 3: "sendAndWait s m cb now = onResponse s m cb now"
    using op by (simp add: sendAndWait_def)
  from 1 r1 o1 have A: "\<exists>hs v. sendMessage s m
              = Inr (m\<lparr>headers := Some hs\<rparr>, [SocketSend (serialize (m\<lparr>headers := Some hs\<rparr>))])
            \<and> JSON_parse (serialize (m\<lparr>headers := Some hs\<rparr>)) = Some v
            \<and> get_prop v ''headers'' = Inr (Some (JObject hs))
            \<and> (\<forall>k. map_of hs k = (case map_of (own_headers m) k of Some x \<Rightarrow> Some x
                                     | None \<Rightarrow> map_of ?g k))"
    by blast
  from 2 r2 o2 have B: "\<exists>s' hs v. onResponse s m cb now
              = Inr (s', m\<lparr>headers := Some hs\<rparr>, [SocketSend (serialize (m\<lparr>headers := Some hs\<rparr>))])
            \<and> JSON_parse (serialize (m\<lparr>headers := Some hs\<rparr>)) = Some v
            \<and> get_prop v ''headers'' = Inr (Some (JObject hs))
            \<and> (\<forall>k. map_of hs k = (case map_of (own_headers m) k of Some x \<Rightarrow> Some x
                                     | None \<Rightarrow> map_of ?g k))"
    by blast
  show ?thesis using A B by (simp only: 3)
qed

theorem open_send_writes_merged_headers_witness:
  "socket ex_session = Some OPEN
   \<and> wf_json (JObject (globalHeaders ex_session)) \<and> wf_message ex_message
   \<and> (\<exists>hs v. sendMessage ex_session ex_message
              = Inr (ex_message\<lparr>headers := Some hs\<rparr>, [SocketSend (serialize (ex_message\<lparr>headers := Some hs\<rparr>))])
        \<and> JSON_parse (serialize (ex_message\<lparr>headers := Some hs\<rparr>)) = Some v
        \<and> get_prop v ''headers'' = Inr (Some (JObject hs))
        \<and> map_of hs ''lang'' = Some (JString ''fa'') \<and> map_of hs ''token'' = Some (JString ''XYZ''))"
proof -
  have op: "socket ex_session = Some OPEN" by (simp add: ex_simps)
  from open_send_writes_merged_headers[OF op ex_wf, of 7 0]
  obtain hs v where
    1: "sendMessage ex_session ex_message
          = Inr (ex_message\<lparr>headers := Some hs\<rparr>, [SocketSend (serialize (ex_message\<lparr>headers := Some hs\<rparr>))])"
    and p: "JSON_parse (serialize (ex_message\<lparr>headers := Some hs\<rparr>)) = Some v"
      "get_prop v ''headers'' = Inr (Some (JObject hs))"
    and 2: "\<forall>k. map_of hs k = (case map_of (own_headers ex_message) k of Some x \<Rightarrow> Some x
                                 | None \<Rightarrow> map_of (globalHeaders ex_session) k)"
    by blast
  have "map_of hs ''lang'' = Some (JString ''fa'')" "map_of hs ''token'' = Some (JString ''XYZ'')"
    by (simp_all add: 2 ex_simps)
  with 1 p op ex_wf show ?thesis by blast
qed


end
